theory Spec2Isabelle
  imports Main "HOL-Library.Sublist"
begin

section \<open>JavaScript string primitives\<close>

text \<open>
  A JavaScript string is a sequence of code units; it is modelled as a \<open>string\<close>
  (a list of characters). Indices are natural numbers; the results of \<open>indexOf\<close> and
  \<open>lastIndexOf\<close> are integers, \<open>-1\<close> meaning "not found", as the source tests
  \<open>idx < 0\<close> and computes \<open>first + 1\<close> on them.
\<close>

text \<open>\<open>s.startsWith(p, pos)\<close>: \<open>p\<close> occurs in \<open>s\<close> at position \<open>pos\<close>.\<close>

definition startsWith :: "string \<Rightarrow> string \<Rightarrow> nat \<Rightarrow> bool" where
  "startsWith s p pos = prefix p (drop pos s)"

text \<open>
  The scan behind \<open>indexOf\<close>: the first position at or after \<open>k\<close> where \<open>p\<close> occurs,
  the second argument being the text from position \<open>k\<close> on. The empty pattern is found
  at once, also at the very end of the text.
\<close>

fun indexOf_scan :: "string \<Rightarrow> string \<Rightarrow> nat \<Rightarrow> int" where
  "indexOf_scan p [] k = (if p = [] then int k else - 1)"
| "indexOf_scan p (c # cs) k =
     (if prefix p (c # cs) then int k else indexOf_scan p cs (Suc k))"

text \<open>\<open>s.indexOf(p, from)\<close>; \<open>from\<close> is clamped to \<open>0 .. s.length\<close>.\<close>

definition indexOf :: "string \<Rightarrow> string \<Rightarrow> int \<Rightarrow> int" where
  "indexOf s p from = (let k = min (nat from) (length s) in indexOf_scan p (drop k s) k)"

fun lastIndexOf_scan :: "string \<Rightarrow> string \<Rightarrow> nat \<Rightarrow> int" where
  "lastIndexOf_scan p [] k = (if p = [] then int k else - 1)"
| "lastIndexOf_scan p (c # cs) k =
     (let r = lastIndexOf_scan p cs (Suc k)
      in if 0 \<le> r then r else if prefix p (c # cs) then int k else - 1)"

text \<open>\<open>s.lastIndexOf(p)\<close>: the last position where \<open>p\<close> occurs, or \<open>-1\<close>.\<close>

definition lastIndexOf :: "string \<Rightarrow> string \<Rightarrow> int" where
  "lastIndexOf s p = lastIndexOf_scan p s 0"

text \<open>\<open>s.includes(p)\<close>.\<close>

definition includes_str :: "string \<Rightarrow> string \<Rightarrow> bool" where
  "includes_str s p = (0 \<le> indexOf s p 0)"

text \<open>
  \<open>s.slice(a, b)\<close> and \<open>s.slice(a)\<close> for indices that are not negative (the source
  only slices at lengths and at indices it has checked to be found): both bounds are
  clamped to the length, and the result is empty when \<open>b \<le> a\<close>.
\<close>

definition slice :: "string \<Rightarrow> nat \<Rightarrow> nat \<Rightarrow> string" where
  "slice s a b = take (b - a) (drop a s)"

definition slice_from :: "string \<Rightarrow> nat \<Rightarrow> string" where
  "slice_from s a = drop a s"

section \<open>Data model\<close>

record HarmonyDelimiters =
  start :: string
  message :: string
  end' :: string

definition DEFAULT_DELIMS :: HarmonyDelimiters where
  "DEFAULT_DELIMS = \<lparr>start = ''<|start|>'', message = ''<|message|>'', end' = ''<|end|>''\<rparr>"

text \<open>\<open>delimiters ?? DEFAULT_DELIMS\<close>.\<close>

definition delims_or_default :: "HarmonyDelimiters option \<Rightarrow> HarmonyDelimiters" where
  "delims_or_default delimiters' = (case delimiters' of None \<Rightarrow> DEFAULT_DELIMS | Some d \<Rightarrow> d)"

text \<open>
  \<open>HarmonyRole\<close> and \<open>HarmonyChannel\<close> are unions of string literals: at run time a
  role or a channel is a string, and the two guards below are what tells a supported one.
\<close>

definition isHarmonyRole :: "string \<Rightarrow> bool" where
  "isHarmonyRole v =
     (v = ''system'' \<or> v = ''developer'' \<or> v = ''user'' \<or> v = ''assistant'' \<or> v = ''tool'')"

definition isHarmonyChannel :: "string \<Rightarrow> bool" where
  "isHarmonyChannel v =
     (v = ''message'' \<or> v = ''reasoning'' \<or> v = ''tool'' \<or> v = ''function'' \<or> v = ''error'')"

text \<open>
  The arguments of a tool call have type \<open>unknown\<close>: the type \<open>'j\<close> of these values is
  a parameter of the model.
\<close>

record 'j HarmonyToolCall =
  namespace :: string
  name :: string
  arguments :: 'j

text \<open>
  A content chunk. The channel of a \<open>tool_call\<close> chunk is the constant \<open>"tool"\<close> by its
  type, so it is not a field of the second constructor.
\<close>

datatype 'j HarmonyContentChunk =
    Text (text': string) (channel': string)
  | ToolCall (call: "'j HarmonyToolCall")

record 'j HarmonyMessage =
  role :: string
  content :: "'j HarmonyContentChunk list"

record 'j HarmonyConversation =
  messages :: "'j HarmonyMessage list"

record RenderOptions =
  delimiters :: "HarmonyDelimiters option"

text \<open>
  \<open>HarmonyError\<close>: the code, the message and the optional details, a record from keys to
  values, which are strings wherever the source builds one.
\<close>

datatype HarmonyError =
  HarmonyError (code: string) (error_message: string) (details: "(string \<times> string) list option")

text \<open>
  What a \<open>catch\<close> clause can receive: a \<open>HarmonyError\<close>, another \<open>Error\<close> with its
  message, a string, or any other value.
\<close>

datatype thrown =
    ThrownHarmony HarmonyError
  | ThrownError string
  | ThrownString string
  | ThrownOther

text \<open>
  \<open>JSON.stringify\<close> and \<open>JSON.parse\<close> belong to the JavaScript runtime, not to this
  repository: they are parameters of the model. \<open>parse\<close> yields \<open>None\<close> where
  \<open>JSON.parse\<close> raises.
\<close>

record 'j JSON =
  stringify :: "'j \<Rightarrow> string"
  parse :: "string \<Rightarrow> 'j option"

section \<open>Rendering\<close>

text \<open>
  The payload token of a chunk: what the inner loop of \<open>renderConversation\<close> pushes
  after the message marker.
\<close>

definition payload_token :: "'j JSON \<Rightarrow> 'j HarmonyContentChunk \<Rightarrow> string" where
  "payload_token J chunk =
     (case chunk of
        Text t ch \<Rightarrow> ''text:'' @ ch @ '':'' @ t
      | ToolCall c \<Rightarrow>
          (let encodedArgs = stringify J (arguments c)
           in ''tool:'' @ namespace c @ '':'' @ name c @ '':'' @ encodedArgs))"

text \<open>The body of the inner loop: the two tokens of a chunk.\<close>

definition render_chunk :: "'j JSON \<Rightarrow> HarmonyDelimiters \<Rightarrow> 'j HarmonyContentChunk \<Rightarrow> string list" where
  "render_chunk J delims chunk = [message delims, payload_token J chunk]"

fun render_chunks :: "'j JSON \<Rightarrow> HarmonyDelimiters \<Rightarrow> 'j HarmonyContentChunk list \<Rightarrow> string list" where
  "render_chunks J delims [] = []"
| "render_chunks J delims (chunk # chunks) = render_chunk J delims chunk @ render_chunks J delims chunks"

text \<open>The body of the outer loop: the tokens of one message.\<close>

definition render_message :: "'j JSON \<Rightarrow> HarmonyDelimiters \<Rightarrow> 'j HarmonyMessage \<Rightarrow> string list" where
  "render_message J delims m =
     [start delims @ role m] @ render_chunks J delims (content m) @ [end' delims]"

fun render_messages :: "'j JSON \<Rightarrow> HarmonyDelimiters \<Rightarrow> 'j HarmonyMessage list \<Rightarrow> string list" where
  "render_messages J delims [] = []"
| "render_messages J delims (m # ms) = render_message J delims m @ render_messages J delims ms"

definition renderConversation ::
  "'j JSON \<Rightarrow> 'j HarmonyConversation \<Rightarrow> RenderOptions option \<Rightarrow> string list" where
  "renderConversation J conversation options =
     (let delims = delims_or_default (case options of None \<Rightarrow> None | Some opts \<Rightarrow> delimiters opts)
      in render_messages J delims (messages conversation))"

section \<open>The strict parser\<close>

record 'j ParseState =
  state_messages :: "'j HarmonyMessage list"
  current :: "'j HarmonyMessage option"
  lastStreamingChannel :: "string option"
  expectingPayload :: "bool option"

text \<open>The state \<open>createParser\<close> starts from: the two optional fields are absent.\<close>

definition createParser :: "'j ParseState" where
  "createParser =
     \<lparr>state_messages = [], current = None, lastStreamingChannel = None, expectingPayload = None\<rparr>"

text \<open>
  \<open>state.messages.push(state.current)\<close> when a message is open.
\<close>

definition close_current :: "'j ParseState \<Rightarrow> 'j HarmonyMessage list" where
  "close_current state =
     (case current state of
        None \<Rightarrow> state_messages state
      | Some currentMessage \<Rightarrow> state_messages state @ [currentMessage])"

text \<open>\<open>state.current.content.push(chunk)\<close>.\<close>

definition push_chunk :: "'j ParseState \<Rightarrow> 'j HarmonyContentChunk \<Rightarrow> 'j HarmonyMessage option" where
  "push_chunk state chunk =
     (case current state of
        None \<Rightarrow> None
      | Some m \<Rightarrow> Some (m\<lparr>content := content m @ [chunk]\<rparr>))"

text \<open>
  \<open>push\<close>: one token. The result is what is thrown, if anything, and the state after
  the call: every \<open>throw\<close> of the source comes before the first assignment to the
  state on its path.
\<close>

definition push ::
  "'j JSON \<Rightarrow> 'j ParseState \<Rightarrow> string \<Rightarrow> HarmonyDelimiters option \<Rightarrow> thrown option \<times> 'j ParseState" where
  "push J state token delimiters' =
     (let delims = delims_or_default delimiters' in
      if startsWith token (start delims) 0 then
        (let roleRaw = slice_from token (length (start delims)) in
         if \<not> isHarmonyRole roleRaw then
           (Some (ThrownHarmony (HarmonyError ''INVALID_ROLE'' (''Unknown role: '' @ roleRaw)
                    (Some [(''token'', token), (''role'', roleRaw)]))), state)
         else
           (None, state\<lparr>state_messages := close_current state,
                         current := Some \<lparr>role = roleRaw, content = []\<rparr>,
                         lastStreamingChannel := None,
                         expectingPayload := Some False\<rparr>))
      else if startsWith token ''<|channel|>'' 0 then
        (let channelName = slice_from token (length ''<|channel|>'') in
         if 0 < length channelName then (None, state\<lparr>lastStreamingChannel := Some channelName\<rparr>)
         else (None, state))
      else if token = message delims then
        (None, state\<lparr>expectingPayload := Some True\<rparr>)
      else if token = end' delims then
        (None, state\<lparr>state_messages := close_current state,
                      current := None,
                      lastStreamingChannel := None,
                      expectingPayload := Some False\<rparr>)
      else if current state = None then
        (Some (ThrownHarmony (HarmonyError ''UNEXPECTED_TOKEN'' (''Content outside of a message: '' @ token)
                 (Some [(''token'', token)]))), state)
      else if startsWith token ''text:'' 0 then
        (let after = slice_from token (length ''text:'');
             sep = indexOf after '':'' 0 in
         if sep < 0 then
           (Some (ThrownHarmony (HarmonyError ''INVALID_TEXT'' ''Missing channel in text token''
                    (Some [(''token'', token)]))), state)
         else
           (let channelRaw = slice after 0 (nat sep);
                text = slice_from after (nat (sep + 1)) in
            if \<not> isHarmonyChannel channelRaw then
              (Some (ThrownHarmony (HarmonyError ''INVALID_CHANNEL'' (''Unknown channel: '' @ channelRaw)
                       (Some [(''token'', token), (''channel'', channelRaw)]))), state)
            else
              (None, state\<lparr>current := push_chunk state (Text text channelRaw),
                            expectingPayload := Some False\<rparr>)))
      else if startsWith token ''tool:'' 0 then
        (let rest = slice_from token (length ''tool:'');
             first = indexOf rest '':'' 0;
             second = indexOf rest '':'' (first + 1) in
         if first < 0 \<or> second < 0 then
           (Some (ThrownHarmony (HarmonyError ''INVALID_TOOL'' ''Malformed tool token: missing separators''
                    (Some [(''token'', token)]))), state)
         else
           (let namespace = slice rest 0 (nat first);
                name = slice rest (nat (first + 1)) (nat second);
                argsRaw = slice_from rest (nat (second + 1)) in
            case parse J argsRaw of
              None \<Rightarrow>
                (Some (ThrownHarmony (HarmonyError ''INVALID_TOOL_ARGS'' ''Invalid JSON args''
                         (Some [(''token'', token), (''args'', argsRaw)]))), state)
            | Some parsed \<Rightarrow>
                (None, state\<lparr>current := push_chunk state
                                (ToolCall \<lparr>namespace = namespace, name = name, arguments = parsed\<rparr>),
                              expectingPayload := Some False\<rparr>)))
      else if expectingPayload state = Some True \<and> lastStreamingChannel state \<noteq> None then
        (None, state\<lparr>expectingPayload := Some False\<rparr>)
      else
        (Some (ThrownHarmony (HarmonyError ''UNKNOWN_TOKEN'' (''Unknown token prefix: '' @ token)
                 (Some [(''token'', token)]))), state))"

text \<open>\<open>finish\<close>: the conversation returned, and the state after the call.\<close>

definition finish :: "'j ParseState \<Rightarrow> 'j HarmonyConversation \<times> 'j ParseState" where
  "finish state =
     (let state' = (case current state of
                      None \<Rightarrow> state
                    | Some currentMessage \<Rightarrow>
                        state\<lparr>state_messages := state_messages state @ [currentMessage], current := None\<rparr>)
      in (\<lparr>messages = state_messages state'\<rparr>, state'))"

text \<open>
  The loop of \<open>parseTokens\<close>: the tokens are pushed in order, and the first value
  thrown ends the loop.
\<close>

fun push_all ::
  "'j JSON \<Rightarrow> 'j ParseState \<Rightarrow> string list \<Rightarrow> HarmonyDelimiters option \<Rightarrow> thrown + 'j ParseState" where
  "push_all J state [] delimiters' = Inr state"
| "push_all J state (t # ts) delimiters' =
     (case push J state t delimiters' of
        (Some e, _) \<Rightarrow> Inl e
      | (None, state') \<Rightarrow> push_all J state' ts delimiters')"

definition parseTokens ::
  "'j JSON \<Rightarrow> string list \<Rightarrow> HarmonyDelimiters option \<Rightarrow> thrown + 'j HarmonyConversation" where
  "parseTokens J tokens delimiters' =
     (case push_all J createParser tokens delimiters' of
        Inl e \<Rightarrow> Inl e
      | Inr state \<Rightarrow> Inr (fst (finish state)))"

text \<open>The tagged result of \<open>tryParseTokens\<close>.\<close>

datatype 'j TryResult =
    Ok (val: "'j HarmonyConversation")
  | Failed (error: HarmonyError)

definition tryParseTokens ::
  "'j JSON \<Rightarrow> string list \<Rightarrow> HarmonyDelimiters option \<Rightarrow> 'j TryResult" where
  "tryParseTokens J tokens delimiters' =
     (case parseTokens J tokens delimiters' of
        Inr v \<Rightarrow> Ok v
      | Inl (ThrownHarmony err) \<Rightarrow> Failed err
      | Inl (ThrownError m) \<Rightarrow> Failed (HarmonyError ''UNKNOWN_ERROR'' m None)
      | Inl (ThrownString s) \<Rightarrow>
          Failed (HarmonyError ''UNKNOWN_ERROR'' (if 0 < length s then s else ''Error'') None)
      | Inl ThrownOther \<Rightarrow> Failed (HarmonyError ''UNKNOWN_ERROR'' ''Error'' None))"

subsection \<open>The hypotheses of the round trip\<close>

text \<open>
  A chunk that the token grammar can carry: a text chunk on one of the five channels, or
  a tool call whose namespace and name hold no colon (the separator of the payload) and
  whose arguments are read back by \<open>JSON.parse\<close> from what \<open>JSON.stringify\<close> wrote.
\<close>

fun carried_chunk :: "'j JSON \<Rightarrow> 'j HarmonyContentChunk \<Rightarrow> bool" where
  "carried_chunk J (Text t ch) = isHarmonyChannel ch"
| "carried_chunk J (ToolCall c) =
     (CHR '':'' \<notin> set (namespace c) \<and> CHR '':'' \<notin> set (name c) \<and>
      parse J (stringify J (arguments c)) = Some (arguments c))"

text \<open>
  A payload token that \<open>push\<close> takes for a payload under the delimiters \<open>d\<close>: neither
  the message marker before it nor the payload itself begins with the start marker, and
  the payload is neither the message marker nor the end marker. These are the tests that
  \<open>push\<close> makes before it looks at the prefix of a payload.
\<close>

definition told_apart :: "HarmonyDelimiters \<Rightarrow> string \<Rightarrow> bool" where
  "told_apart d p =
     (\<not> prefix (start d) (message d) \<and> \<not> prefix (start d) p \<and>
      p \<noteq> message d \<and> p \<noteq> end' d)"

text \<open>
  A message that survives the round trip under the delimiters \<open>d\<close>: its role is one of
  the five, the end marker after it does not begin with the start marker, and each of its
  chunks is carried by the grammar and told apart from the markers.
\<close>

definition carried_message :: "'j JSON \<Rightarrow> HarmonyDelimiters \<Rightarrow> 'j HarmonyMessage \<Rightarrow> bool" where
  "carried_message J d m =
     (isHarmonyRole (role m) \<and> \<not> prefix (start d) (end' d) \<and>
      list_all (\<lambda>c. carried_chunk J c \<and> told_apart d (payload_token J c)) (content m))"

text \<open>
  For the converse: the number of chunks of a list of messages, and the tokens that
  \<open>push\<close> hands on to the branches that add a chunk.
\<close>

definition chunk_count :: "'j HarmonyMessage list \<Rightarrow> nat" where
  "chunk_count ms = sum_list (map (\<lambda>m. length (content m)) ms)"

definition adds_chunk :: "HarmonyDelimiters \<Rightarrow> string \<Rightarrow> bool" where
  "adds_chunk d t =
     (\<not> prefix (start d) t \<and> \<not> prefix ''<|channel|>'' t \<and> t \<noteq> message d \<and> t \<noteq> end' d \<and>
      (prefix ''text:'' t \<or> prefix ''tool:'' t))"

subsection \<open>A small instance of the JSON parameter\<close>

text \<open>
  The three literal values of JSON with their texts, for the concrete examples. Any other
  text is rejected, as \<open>JSON.parse\<close> rejects \<open>c:null\<close>.
\<close>

datatype json_atom = JNull | JTrue | JFalse

definition atom_json :: "json_atom JSON" where
  "atom_json =
     \<lparr>stringify = (\<lambda>v. case v of JNull \<Rightarrow> ''null'' | JTrue \<Rightarrow> ''true'' | JFalse \<Rightarrow> ''false''),
      parse = (\<lambda>s. if s = ''null'' then Some JNull else if s = ''true'' then Some JTrue
                     else if s = ''false'' then Some JFalse else None)\<rparr>"

section \<open>Character classes, trimming and literal patterns\<close>

text \<open>
  A character stands for the code unit of the same number. The class \<open>[a-z]\<close>, the class
  \<open>[a-zA-Z]\<close>, and the white space of \<open>\s\<close> and of \<open>trim\<close> (tab, line feed, vertical
  tab, form feed, carriage return, space and no-break space among the code units below
  256).
\<close>

definition isLowerLetter :: "char \<Rightarrow> bool" where
  "isLowerLetter c = (97 \<le> (of_char c :: nat) \<and> (of_char c :: nat) \<le> 122)"

definition isLetter :: "char \<Rightarrow> bool" where
  "isLetter c = (isLowerLetter c \<or> (65 \<le> (of_char c :: nat) \<and> (of_char c :: nat) \<le> 90))"

definition isWhiteSpace :: "char \<Rightarrow> bool" where
  "isWhiteSpace c = ((of_char c :: nat) \<in> set [9, 10, 11, 12, 13, 32, 160])"

text \<open>\<open>s.trim()\<close>.\<close>

definition trim :: "string \<Rightarrow> string" where
  "trim s = rev (dropWhile isWhiteSpace (rev (dropWhile isWhiteSpace s)))"

text \<open>
  The start positions of the matches of a global regular expression that is a literal,
  non-empty pattern \<open>p\<close>, as \<open>matchAll\<close>, \<open>match\<close> with the \<open>g\<close> flag and repeated
  \<open>exec\<close> find them: the text is scanned from the left, and the scan goes on after the
  end of each match. The second argument is the text from position \<open>k\<close> on.
\<close>

fun match_positions :: "string \<Rightarrow> string \<Rightarrow> nat \<Rightarrow> nat list" where
  "match_positions p [] k = []"
| "match_positions p (c # cs) k =
     (if prefix p (c # cs)
      then k # match_positions p (drop (length p - 1) cs) (k + max 1 (length p))
      else match_positions p cs (Suc k))"

section \<open>The format detector\<close>

text \<open>
  The values \<open>isHarmonyFormat\<close> can be handed at run time, whatever its signature says:
  \<open>undefined\<close> when the argument is missing, \<open>null\<close>, a string, or a value of another
  type.
\<close>

datatype js_value =
    JSUndefined
  | JSNull
  | JSString string
  | JSBoolean bool
  | JSNumber int
  | JSObject

definition isHarmonyFormat :: "js_value \<Rightarrow> HarmonyDelimiters option \<Rightarrow> bool" where
  "isHarmonyFormat input delimiters' =
     (case input of
        JSString s \<Rightarrow>
          if length s = 0 then False
          else
            (let delims = delims_or_default delimiters';
                 hasStart = includes_str s (start delims);
                 hasChannel = includes_str s ''<|channel|>'';
                 hasMessage = includes_str s (message delims);
                 hasEnd = includes_str s (end' delims)
             in (hasStart \<or> hasChannel) \<and> hasChannel \<and> (hasMessage \<or> hasEnd))
      | _ \<Rightarrow> False)"

section \<open>Extracting the text of a channel from a complete string\<close>

text \<open>
  \<open>text.replace(/<\|(start|message|end|channel)\|>/g, "")\<close>: every match of one of the
  four markers is removed, the scan going on after the end of each match.
\<close>

fun remove_markers :: "string \<Rightarrow> string" where
  "remove_markers [] = []"
| "remove_markers (c # cs) =
     (if prefix ''<|start|>'' (c # cs) then remove_markers (drop (length ''<|start|>'' - 1) cs)
      else if prefix ''<|message|>'' (c # cs) then remove_markers (drop (length ''<|message|>'' - 1) cs)
      else if prefix ''<|end|>'' (c # cs) then remove_markers (drop (length ''<|end|>'' - 1) cs)
      else if prefix ''<|channel|>'' (c # cs) then remove_markers (drop (length ''<|channel|>'' - 1) cs)
      else c # remove_markers cs)"

text \<open>
  \<open>text.replace(/<\|[a-zA-Z]*$/g, "")\<close>: the text is cut at the first position from
  which it reads \<open><|\<close> and then letters only, up to its end.
\<close>

fun remove_partial_marker :: "string \<Rightarrow> string" where
  "remove_partial_marker [] = []"
| "remove_partial_marker (c # cs) =
     (if prefix ''<|'' (c # cs) \<and> list_all isLetter (drop 1 cs) then []
      else c # remove_partial_marker cs)"

definition safeExtractChannel :: "string \<Rightarrow> string \<Rightarrow> string" where
  "safeExtractChannel input channel =
     (let channelTag = ''<|channel|>'' @ channel;
          idxChannel = lastIndexOf input channelTag in
      if idxChannel < 0 then ''''
      else
        (let idxMsg = indexOf input ''<|message|>'' idxChannel in
         if idxMsg < 0 then ''''
         else
           (let start = nat idxMsg + length ''<|message|>'';
                nextEnd = indexOf input ''<|end|>'' (int start);
                nextStart = indexOf input ''<|start|>'' (int start);
                nextChannel = indexOf input ''<|channel|>'' (int start);
                end0 = length input;
                end1 = (if 0 \<le> nextEnd then min end0 (nat nextEnd) else end0);
                end2 = (if 0 \<le> nextStart then min end1 (nat nextStart) else end1);
                end3 = (if 0 \<le> nextChannel then min end2 (nat nextChannel) else end2);
                text0 = slice input start end3;
                text1 = remove_markers text0;
                text2 = remove_partial_marker text1
            in trim text2)))"

text \<open>
  The three extractors are called with a string; \<open>isHarmonyFormat\<close> is given that
  string and no delimiters.
\<close>

definition extractReasoningContent :: "string \<Rightarrow> string" where
  "extractReasoningContent input =
     (if \<not> isHarmonyFormat (JSString input) None then ''''
      else safeExtractChannel input ''analysis'')"

definition extractFinalContent :: "string \<Rightarrow> string" where
  "extractFinalContent input =
     (if \<not> isHarmonyFormat (JSString input) None then input
      else
        (let finalText = safeExtractChannel input ''final'' in
         if 0 < length finalText then finalText
         else
           (let commentaryText = safeExtractChannel input ''commentary'' in
            if 0 < length commentaryText then commentaryText else '''')))"

definition extractCommentaryContent :: "string \<Rightarrow> string" where
  "extractCommentaryContent input =
     (if \<not> isHarmonyFormat (JSString input) None then ''''
      else safeExtractChannel input ''commentary'')"

section \<open>The tokenizer\<close>

text \<open>
  The inner loop of \<open>tokenizeCompletionString\<close>: from \<open>j\<close>, the end of the run of
  lower-case letters.
\<close>

function role_end :: "string \<Rightarrow> nat \<Rightarrow> nat" where
  "role_end input j =
     (if j < length input \<and> isLowerLetter (input ! j) then role_end input (j + 1) else j)"
  by pat_completeness auto
termination
  by (relation "measure (\<lambda>(input, j). length input - j)") auto

declare role_end.simps [simp del]

text \<open>The loop of \<open>findNextDelimiterIndex\<close> over \<open>idxs[1..]\<close>, from \<open>min = idxs[0]\<close>.\<close>

fun min_index :: "int \<Rightarrow> int list \<Rightarrow> int" where
  "min_index mn [] = mn"
| "min_index mn (candidate # rest) = min_index (if candidate < mn then candidate else mn) rest"

definition findNextDelimiterIndex :: "string \<Rightarrow> nat \<Rightarrow> HarmonyDelimiters \<Rightarrow> nat" where
  "findNextDelimiterIndex input from delims =
     (let indices = [indexOf input (start delims) (int from),
                     indexOf input (message delims) (int from),
                     indexOf input (end' delims) (int from)];
          idxs = filter (\<lambda>x. 0 \<le> x) indices
      in if length idxs = 0 then length input
         else nat (min_index (hd idxs) (tl idxs)))"

text \<open>
  The outer loop, from the position \<open>i\<close> and the tokens pushed so far. Nothing in the
  source bounds the number of its rounds, so the result is optional: \<open>None\<close> is a loop
  that does not end.
\<close>

partial_function (option) tokenize_loop ::
  "HarmonyDelimiters \<Rightarrow> string \<Rightarrow> nat \<Rightarrow> string list \<Rightarrow> string list option" where
  "tokenize_loop delims input i tokens =
     (if i < length input then
        (if startsWith input (start delims) i then
           tokenize_loop delims input (role_end input (i + length (start delims)))
             (tokens @ [slice input i (role_end input (i + length (start delims)))])
         else if startsWith input (message delims) i then
           tokenize_loop delims input (i + length (message delims)) (tokens @ [message delims])
         else if startsWith input (end' delims) i then
           tokenize_loop delims input (i + length (end' delims)) (tokens @ [end' delims])
         else
           tokenize_loop delims input (findNextDelimiterIndex input i delims)
             (if 0 < length (slice input i (findNextDelimiterIndex input i delims))
              then tokens @ [slice input i (findNextDelimiterIndex input i delims)]
              else tokens))
      else Some tokens)"

definition tokenizeCompletionString :: "string \<Rightarrow> HarmonyDelimiters option \<Rightarrow> string list option" where
  "tokenizeCompletionString input delimiters' =
     tokenize_loop (delims_or_default delimiters') input 0 []"

section \<open>The streaming extractor\<close>

record StreamParseResult =
  isComplete :: bool
  currentAnalysis :: string
  currentFinal :: string
  currentCommentary :: string
  lastChannelDetected :: "string option"
  bufferContent :: string

text \<open>The two private fields of the class \<open>HarmonyStreamParser\<close>.\<close>

record HarmonyStreamParser =
  buffer :: string
  currentChannel :: "string option"

text \<open>A new instance.\<close>

definition new_HarmonyStreamParser :: HarmonyStreamParser where
  "new_HarmonyStreamParser = \<lparr>buffer = [], currentChannel = None\<rparr>"

definition reset :: "HarmonyStreamParser \<Rightarrow> HarmonyStreamParser" where
  "reset this = this\<lparr>buffer := [], currentChannel := None\<rparr>"

definition getBuffer :: "HarmonyStreamParser \<Rightarrow> string" where
  "getBuffer this = buffer this"

subsection \<open>The regular expressions of the extractor\<close>

text \<open>The class \<open>[^<\s]\<close>.\<close>

definition isChannelNameChar :: "char \<Rightarrow> bool" where
  "isChannelNameChar c = (c \<noteq> CHR ''<'' \<and> \<not> isWhiteSpace c)"

text \<open>
  The first groups of the matches of \<open>/<\|channel\|>([^<\s]+)/g\<close>, in order: at a
  channel marker followed by at least one character of the class, the longest run of
  such characters; the scan goes on after the run.
\<close>

fun channel_captures :: "string \<Rightarrow> string list" where
  "channel_captures [] = []"
| "channel_captures (c # cs) =
     (if prefix ''<|channel|>'' (c # cs) \<and>
         0 < length (takeWhile isChannelNameChar (drop (length ''<|channel|>'' - 1) cs))
      then takeWhile isChannelNameChar (drop (length ''<|channel|>'' - 1) cs) #
           channel_captures
             (drop (length ''<|channel|>'' - 1 +
                    length (takeWhile isChannelNameChar (drop (length ''<|channel|>'' - 1) cs))) cs)
      else channel_captures cs)"

text \<open>
  The group \<open>(.*?)\<close> before \<open>(?:(?=<\|channel\|>)|<\|end\|>|$)\<close>, with the flag \<open>s\<close>:
  the shortest text after which a channel marker or an end marker follows, or the input
  ends.
\<close>

fun lazy_body :: "string \<Rightarrow> string" where
  "lazy_body [] = []"
| "lazy_body (c # cs) =
     (if prefix ''<|channel|>'' (c # cs) \<or> prefix ''<|end|>'' (c # cs) then []
      else c # lazy_body cs)"

text \<open>
  The first groups of the matches of
  \<open><\|channel\|>NAME<\|message\|>(.*?)(?:(?=<\|channel\|>)|<\|end\|>|$)\<close> with the
  flags \<open>g\<close> and \<open>s\<close>, for a name that the pattern takes literally. A match consumes
  the end marker that closes it, and neither a channel marker that follows it nor the end
  of the input; the scan goes on after the match.
\<close>

function channel_bodies :: "string \<Rightarrow> string \<Rightarrow> string list" where
  "channel_bodies channel [] = []"
| "channel_bodies channel (c # cs) =
     (if prefix (''<|channel|>'' @ channel @ ''<|message|>'') (c # cs) then
        (let rest = drop (length (''<|channel|>'' @ channel @ ''<|message|>'') - 1) cs;
             body = lazy_body rest;
             closing = (if prefix ''<|end|>'' (drop (length body) rest) then length ''<|end|>'' else 0)
         in body # channel_bodies channel (drop (length body + closing) rest))
      else channel_bodies channel cs)"
  by pat_completeness auto
termination
  by (relation "measure (\<lambda>(channel, s). length s)") auto

text \<open>
  The characters with a meaning of their own in a pattern. A channel name without any of
  them stands for itself in the pattern built from it.
\<close>

definition regexp_syntax_chars :: "char list" where
  "regexp_syntax_chars =
     [CHR ''^'', CHR ''$'', CHR 0x5C, CHR ''.'', CHR ''*'', CHR ''+'', CHR ''?'',
      CHR ''('', CHR '')'', CHR ''['', CHR '']'', CHR ''{'', CHR ''}'', CHR ''|'']"

definition regexp_literal :: "string \<Rightarrow> bool" where
  "regexp_literal channel = list_all (\<lambda>c. c \<notin> set regexp_syntax_chars) channel"

text \<open>
  The source puts the channel name into the pattern as it is. For a name with syntax
  characters the pattern is whatever the regular expressions of JavaScript make of it,
  which this repository does not define: that is the parameter \<open>E\<close>, from the name and
  the input to the first groups of the successive matches (a group that took no part in
  a match is \<open>None\<close>), or to \<open>None\<close> when \<open>new RegExp\<close> throws a \<open>SyntaxError\<close> or
  the loop over \<open>exec\<close> does not end.
\<close>

type_synonym regexp_engine = "string \<Rightarrow> string \<Rightarrow> string option list option"

definition exec_all :: "regexp_engine \<Rightarrow> string \<Rightarrow> string \<Rightarrow> string option list option" where
  "exec_all E input channel =
     (if regexp_literal channel then Some (map Some (channel_bodies channel input))
      else E channel input)"

text \<open>\<open>typeof m[1] === "string" ? m[1].trim() : ""\<close>.\<close>

definition group_text :: "string option \<Rightarrow> string" where
  "group_text m1 = (case m1 of Some s \<Rightarrow> trim s | None \<Rightarrow> '''')"

text \<open>\<open>parts.join("\n")\<close>.\<close>

fun join_lines :: "string list \<Rightarrow> string" where
  "join_lines [] = []"
| "join_lines [x] = x"
| "join_lines (x # y # ys) = x @ [CHR 0x0A] @ join_lines (y # ys)"

subsection \<open>The private methods\<close>

definition collectChannelText :: "regexp_engine \<Rightarrow> string \<Rightarrow> string \<Rightarrow> string option" where
  "collectChannelText E input channel =
     (case exec_all E input channel of
        None \<Rightarrow> None
      | Some ms \<Rightarrow> Some (join_lines (filter (\<lambda>text. 0 < length text) (map group_text ms))))"

definition collectLastChannelText :: "regexp_engine \<Rightarrow> string \<Rightarrow> string \<Rightarrow> string option" where
  "collectLastChannelText E input channel =
     (case exec_all E input channel of
        None \<Rightarrow> None
      | Some ms \<Rightarrow>
          Some (fold (\<lambda>text last. if 0 < length text then text else last) (map group_text ms) ''''))"

definition detectCurrentChannel :: "HarmonyStreamParser \<Rightarrow> HarmonyStreamParser" where
  "detectCurrentChannel this =
     (let matches = channel_captures (buffer this) in
      if 0 < length matches then
        (let channel = last matches in
         if 0 < length channel then this\<lparr>currentChannel := Some channel\<rparr> else this)
      else this)"

text \<open>
  \<open>after.match(/<\|end\|>/)\<close> finds a match exactly when \<open>after\<close> includes the end
  marker.
\<close>

definition extractIncompleteContentFromWindow :: "string \<Rightarrow> string" where
  "extractIncompleteContentFromWindow win =
     (let all = match_positions ''<|message|>'' win 0 in
      if length all = 0 then ''''
      else
        (let idx = last all + length ''<|message|>'';
             after = slice_from win idx in
         if includes_str after ''<|end|>'' then '''' else trim after))"

text \<open>The window of \<open>parseCurrentBuffer\<close>: the last message, complete or in progress.\<close>

definition messageWindow :: "string \<Rightarrow> string" where
  "messageWindow buf =
     (let lastStartIdx = lastIndexOf buf ''<|start|>'';
          windowStart = (if 0 \<le> lastStartIdx then nat lastStartIdx else 0);
          endAfterStartIdx = indexOf buf ''<|end|>'' (int windowStart);
          windowEnd = (if 0 \<le> endAfterStartIdx then nat endAfterStartIdx + length ''<|end|>''
                       else length buf)
      in slice buf windowStart windowEnd)"

text \<open>
  The step that appends the content in progress to the text of the active channel; the
  three texts are the variables \<open>currentAnalysis\<close>, \<open>currentFinal\<close> and
  \<open>currentCommentary\<close>.
\<close>

definition append_incomplete ::
  "string option \<Rightarrow> string \<Rightarrow> string \<times> string \<times> string \<Rightarrow> string \<times> string \<times> string" where
  "append_incomplete channel incompleteContent texts =
     (case texts of (analysis, final, commentary) \<Rightarrow>
        if 0 < length incompleteContent \<and> (case channel of None \<Rightarrow> False | Some ch \<Rightarrow> 0 < length ch)
        then
          if channel = Some ''analysis'' then
            ((if 0 < length analysis then analysis @ [CHR 0x0A] @ incompleteContent
              else incompleteContent), final, commentary)
          else if channel = Some ''final'' then
            (analysis,
             (if 0 < length final then final @ [CHR 0x0A] @ incompleteContent
              else incompleteContent), commentary)
          else if channel = Some ''commentary'' then
            (analysis, final,
             (if 0 < length commentary then commentary @ [CHR 0x0A] @ incompleteContent
              else incompleteContent))
          else texts
        else texts)"

text \<open>The step that prefers the most recent segment of the active channel.\<close>

definition prefer_last ::
  "string \<Rightarrow> string \<Rightarrow> string \<times> string \<times> string \<Rightarrow> string \<times> string \<times> string" where
  "prefer_last channel lastOnly texts =
     (case texts of (analysis, final, commentary) \<Rightarrow>
        if channel = ''analysis'' \<and> 0 < length lastOnly then (lastOnly, final, commentary)
        else if channel = ''final'' \<and> 0 < length lastOnly then (analysis, lastOnly, commentary)
        else if channel = ''commentary'' \<and> 0 < length lastOnly then (analysis, final, lastOnly)
        else texts)"

text \<open>
  \<open>parseCurrentBuffer\<close> from the call of \<open>detectCurrentChannel\<close> on, for a buffer with
  markers: the snapshot, or \<open>None\<close> when a regular expression built from a channel name
  makes the call throw or hang.
\<close>

definition parseMarkedBuffer :: "regexp_engine \<Rightarrow> HarmonyStreamParser \<Rightarrow> StreamParseResult option" where
  "parseMarkedBuffer E this =
     (let win = messageWindow (buffer this) in
      case collectChannelText E win ''analysis'' of None \<Rightarrow> None | Some analysis0 \<Rightarrow>
      case collectChannelText E win ''final'' of None \<Rightarrow> None | Some final0 \<Rightarrow>
      case collectChannelText E win ''commentary'' of None \<Rightarrow> None | Some commentary0 \<Rightarrow>
      (let incompleteContent = extractIncompleteContentFromWindow win;
           texts1 = append_incomplete (currentChannel this) incompleteContent
                      (analysis0, final0, commentary0)
       in
       case (case currentChannel this of
               None \<Rightarrow> Some texts1
             | Some ch \<Rightarrow>
                 (case collectLastChannelText E win ch of
                    None \<Rightarrow> None
                  | Some lastOnly \<Rightarrow> Some (prefer_last ch lastOnly texts1))) of
         None \<Rightarrow> None
       | Some (analysis, final, commentary) \<Rightarrow>
           Some \<lparr>isComplete =
                    (length (match_positions ''<|start|>'' (buffer this) 0) =
                       length (match_positions ''<|end|>'' (buffer this) 0) \<and>
                     0 < length (match_positions ''<|start|>'' (buffer this) 0)),
                 currentAnalysis = analysis,
                 currentFinal = final,
                 currentCommentary = commentary,
                 lastChannelDetected = currentChannel this,
                 bufferContent = buffer this\<rparr>))"

text \<open>
  \<open>parseCurrentBuffer\<close>: the snapshot, if one is returned, and the instance after the
  call.
\<close>

definition parseCurrentBuffer ::
  "regexp_engine \<Rightarrow> HarmonyStreamParser \<Rightarrow> StreamParseResult option \<times> HarmonyStreamParser" where
  "parseCurrentBuffer E this =
     (let hasHarmonyMarkers =
            (includes_str (buffer this) ''<|start|>'' \<or>
             includes_str (buffer this) ''<|channel|>'' \<or>
             includes_str (buffer this) ''<|message|>'')
      in if \<not> hasHarmonyMarkers then
           (Some \<lparr>isComplete = False,
                  currentAnalysis = '''',
                  currentFinal = buffer this,
                  currentCommentary = '''',
                  lastChannelDetected = None,
                  bufferContent = buffer this\<rparr>, this)
         else
           (let this' = detectCurrentChannel this
            in (parseMarkedBuffer E this', this')))"

definition addContent ::
  "regexp_engine \<Rightarrow> HarmonyStreamParser \<Rightarrow> string \<Rightarrow> StreamParseResult option \<times> HarmonyStreamParser" where
  "addContent E this content' = parseCurrentBuffer E (this\<lparr>buffer := buffer this @ content'\<rparr>)"

subsection \<open>Feeding a sequence of chunks\<close>

text \<open>
  The calls \<open>addContent(c1)\<close>, ..., \<open>addContent(cn)\<close> on one instance, with what each
  call returns and the instance after the last one.
\<close>

fun feed ::
  "regexp_engine \<Rightarrow> HarmonyStreamParser \<Rightarrow> string list \<Rightarrow>
     StreamParseResult option list \<times> HarmonyStreamParser" where
  "feed E this [] = ([], this)"
| "feed E this (c # cs) =
     (case addContent E this c of
        (r, this') \<Rightarrow> (case feed E this' cs of (rs, this'') \<Rightarrow> (r # rs, this'')))"

text \<open>An engine that refuses every name it is asked about, for the concrete examples.\<close>

definition refusing_engine :: regexp_engine where
  "refusing_engine channel input = None"

subsection \<open>Notions for stating the properties\<close>

text \<open>The number of positions of a text at which a pattern occurs.\<close>

fun occurrences :: "string \<Rightarrow> string \<Rightarrow> nat" where
  "occurrences p [] = 0"
| "occurrences p (c # cs) = (if prefix p (c # cs) then 1 else 0) + occurrences p cs"

text \<open>
  The channel that a buffer declares last: the name that \<open>detectCurrentChannel\<close> finds in
  it, if it finds one.
\<close>

definition declared_channel :: "string \<Rightarrow> string option" where
  "declared_channel buf =
     (if channel_captures buf = [] then None else Some (last (channel_captures buf)))"

text \<open>A channel marker with a name after it, at the head of the text, or somewhere in it.\<close>

definition declares_here :: "string \<Rightarrow> bool" where
  "declares_here s =
     (prefix ''<|channel|>'' s \<and>
      0 < length (takeWhile isChannelNameChar (drop (length ''<|channel|>'') s)))"

fun declares :: "string \<Rightarrow> bool" where
  "declares [] = False"
| "declares (c # cs) = (declares_here (c # cs) \<or> declares cs)"

text \<open>
  An instance whose current channel is the one its buffer declares last: what holds of a
  new instance, of an instance after \<open>reset\<close>, and again after every \<open>addContent\<close>.
\<close>

definition tracked :: "HarmonyStreamParser \<Rightarrow> bool" where
  "tracked this = (currentChannel this = declared_channel (buffer this))"

section \<open>Properties of the string primitives\<close>

text \<open>
  A search from position \<open>k\<close> finds nothing before \<open>k\<close>, and nothing at \<open>k\<close> where
  the pattern is not.
\<close>

lemma indexOf_scan_ge: "0 \<le> indexOf_scan p s k \<Longrightarrow> int k \<le> indexOf_scan p s k"
proof (induction s arbitrary: k)
  case Nil
  then show ?case by (simp split: if_splits)
next
  case (Cons c cs)
  show ?case
  proof (cases "prefix p (c # cs)")
    case True
    then show ?thesis by simp
  next
    case False
    with Cons.prems have "0 \<le> indexOf_scan p cs (Suc k)" by simp
    from Cons.IH [OF this] False show ?thesis by simp
  qed
qed

lemma indexOf_scan_not_here: "\<not> prefix p s \<Longrightarrow> indexOf_scan p s k \<noteq> int k"
proof (cases s)
  case Nil
  assume "\<not> prefix p s"
  with Nil show ?thesis by simp
next
  case (Cons c cs)
  assume np: "\<not> prefix p s"
  show ?thesis
  proof
    assume e: "indexOf_scan p s k = int k"
    with Cons np have "indexOf_scan p cs (Suc k) = int k" by simp
    moreover from this have "0 \<le> indexOf_scan p cs (Suc k)" by simp
    from indexOf_scan_ge [OF this] have "int (Suc k) \<le> indexOf_scan p cs (Suc k)" .
    ultimately show False by simp
  qed
qed

lemma indexOf_after:
  assumes "i < length s" and "\<not> startsWith s p i" and "0 \<le> indexOf s p (int i)"
  shows "int i < indexOf s p (int i)"
proof -
  from assms(1) have m: "min i (length s) = i" by simp
  from assms(3) have "0 \<le> indexOf_scan p (drop i s) i" by (simp add: indexOf_def Let_def m)
  from indexOf_scan_ge [OF this] have "int i \<le> indexOf_scan p (drop i s) i" .
  moreover from assms(2) have "indexOf_scan p (drop i s) i \<noteq> int i"
    by (intro indexOf_scan_not_here) (simp add: startsWith_def)
  ultimately show ?thesis by (simp add: indexOf_def Let_def m)
qed


section \<open>Properties of the strict parser\<close>

subsection \<open>What \<open>push\<close> throws\<close>

text \<open>Whatever \<open>push\<close> throws is a \<open>HarmonyError\<close>, thrown before the state is touched.\<close>

lemma push_thrown:
  "push J state token d = (Some e, s') \<Longrightarrow>
     s' = state \<and> (case e of ThrownHarmony h \<Rightarrow> True | _ \<Rightarrow> False)"
  unfolding push_def Let_def
  by (clarsimp split: if_splits option.splits)

lemma push_all_thrown_is_harmony:
  "push_all J state tokens d = Inl e \<Longrightarrow> (case e of ThrownHarmony h \<Rightarrow> True | _ \<Rightarrow> False)"
proof (induction tokens arbitrary: state)
  case Nil
  then show ?case by simp
next
  case (Cons t ts)
  obtain r state' where p: "push J state t d = (r, state')" by (cases "push J state t d")
  show ?case
  proof (cases r)
    case None
    with p Cons.prems have "push_all J state' ts d = Inl e" by simp
    then show ?thesis by (rule Cons.IH)
  next
    case (Some x)
    with p Cons.prems have "e = x" by simp
    moreover from p Some have "push J state t d = (Some x, state')" by simp
    ultimately show ?thesis using push_thrown by blast
  qed
qed

text \<open>
  C5. For every token list and every delimiter set, \<open>tryParseTokens\<close> returns the
  success result carrying \<open>c\<close> exactly when \<open>parseTokens\<close> returns \<open>c\<close>, and the failure
  result carrying \<open>e\<close> exactly when \<open>parseTokens\<close> throws the \<open>HarmonyError\<close> \<open>e\<close>, with
  the same code, message and details; \<open>parseTokens\<close> throws nothing else, so one of the
  two always holds.
\<close>

theorem tryParseTokens_same_parse:
  "(\<exists>c. parseTokens J tokens d = Inr c \<and> tryParseTokens J tokens d = Ok c) \<or>
   (\<exists>e. parseTokens J tokens d = Inl (ThrownHarmony e) \<and> tryParseTokens J tokens d = Failed e)"
proof (cases "push_all J createParser tokens d")
  case (Inl e)
  from push_all_thrown_is_harmony [OF Inl] obtain h where "e = ThrownHarmony h"
    by (cases e) simp_all
  with Inl show ?thesis by (simp add: parseTokens_def tryParseTokens_def)
next
  case (Inr state)
  then show ?thesis by (simp add: parseTokens_def tryParseTokens_def)
qed

subsection \<open>A start token with an unknown role\<close>

text \<open>
  C9. A token that begins with the start marker and whose remainder is not one of the
  five roles makes \<open>push\<close> throw the \<open>INVALID_ROLE\<close> error, with the token and the role
  in its details, and leaves the state of the parser as it was: an open message is
  neither closed nor appended, and \<open>finish\<close> returns afterwards what it would have
  returned before.
\<close>

theorem push_invalid_role_atomic:
  assumes "startsWith token (start (delims_or_default d)) 0"
      and "\<not> isHarmonyRole (slice_from token (length (start (delims_or_default d))))"
  shows "push J state token d =
           (Some (ThrownHarmony (HarmonyError ''INVALID_ROLE''
                    (''Unknown role: '' @ slice_from token (length (start (delims_or_default d))))
                    (Some [(''token'', token),
                           (''role'', slice_from token (length (start (delims_or_default d))))]))),
            state)
         \<and> finish (snd (push J state token d)) = finish state"
  using assms by (simp add: push_def Let_def)

text \<open>
  The theorem at a parser with an open message from the user that holds one text chunk:
  \<open><|start|>invalid\<close> is rejected, and \<open>finish\<close> still returns that message.
\<close>

theorem push_invalid_role_atomic_witness:
  "startsWith ''<|start|>invalid'' (start (delims_or_default None)) 0
   \<and> \<not> isHarmonyRole (slice_from ''<|start|>invalid'' (length (start (delims_or_default None))))
   \<and> fst (push atom_json
        \<lparr>state_messages = [], current = Some \<lparr>role = ''user'', content = [Text ''Hi'' ''message'']\<rparr>,
          lastStreamingChannel = None, expectingPayload = Some False\<rparr> ''<|start|>invalid'' None)
       = Some (ThrownHarmony (HarmonyError ''INVALID_ROLE'' ''Unknown role: invalid''
                 (Some [(''token'', ''<|start|>invalid''), (''role'', ''invalid'')])))
   \<and> fst (finish (snd (push atom_json
        \<lparr>state_messages = [], current = Some \<lparr>role = ''user'', content = [Text ''Hi'' ''message'']\<rparr>,
          lastStreamingChannel = None, expectingPayload = Some False\<rparr> ''<|start|>invalid'' None)))
       = \<lparr>messages = [\<lparr>role = ''user'', content = [Text ''Hi'' ''message'']\<rparr>]\<rparr>"
proof -
  have a: "startsWith ''<|start|>invalid'' (start (delims_or_default None)) 0"
    by (simp add: startsWith_def delims_or_default_def DEFAULT_DELIMS_def)
  have b: "\<not> isHarmonyRole (slice_from ''<|start|>invalid'' (length (start (delims_or_default None))))"
    by (simp add: slice_from_def delims_or_default_def DEFAULT_DELIMS_def isHarmonyRole_def)
  show ?thesis
    using a b push_invalid_role_atomic [OF a b, of atom_json
        "\<lparr>state_messages = [], current = Some \<lparr>role = ''user'', content = [Text ''Hi'' ''message'']\<rparr>,
          lastStreamingChannel = None, expectingPayload = Some False\<rparr>"]
    by (simp add: slice_from_def delims_or_default_def DEFAULT_DELIMS_def finish_def)
qed

subsection \<open>A channel token while no message is open\<close>

text \<open>
  C2, as stated, fails: on a fresh parser the token \<open><|channel|>analysis\<close> is taken
  without any error, since \<open>push\<close> handles channel tokens before it looks whether a
  message is open.
\<close>

theorem push_channel_outside_message_counterexample:
  "startsWith ''<|channel|>analysis'' ''<|channel|>'' 0
   \<and> current (createParser :: json_atom ParseState) = None
   \<and> fst (push atom_json createParser ''<|channel|>analysis'' None) = None"
  by (simp add: push_def Let_def startsWith_def createParser_def delims_or_default_def
        DEFAULT_DELIMS_def slice_from_def)

text \<open>
  C2, amended. A token that begins with \<open><|channel|>\<close> (and not with the start marker),
  pushed while no message is open, throws nothing: the call returns, the name after the
  marker is recorded as the last streaming channel when it is not empty, and nothing else
  in the state changes.
\<close>

theorem push_channel_outside_message:
  assumes "startsWith token ''<|channel|>'' 0"
      and "current state = None"
      and "\<not> startsWith token (start (delims_or_default d)) 0"
  shows "push J state token d =
           (None, if 0 < length (slice_from token (length ''<|channel|>''))
                  then state\<lparr>lastStreamingChannel := Some (slice_from token (length ''<|channel|>''))\<rparr>
                  else state)"
  using assms by (simp add: push_def Let_def)

text \<open>The amended theorem at the token \<open><|channel|>final\<close> and a fresh parser.\<close>

theorem push_channel_outside_message_witness:
  "startsWith ''<|channel|>final'' ''<|channel|>'' 0
   \<and> current (createParser :: json_atom ParseState) = None
   \<and> \<not> startsWith ''<|channel|>final'' (start (delims_or_default None)) 0
   \<and> push atom_json createParser ''<|channel|>final'' None =
       (None, createParser\<lparr>lastStreamingChannel := Some ''final''\<rparr>)"
proof -
  have a: "startsWith ''<|channel|>final'' ''<|channel|>'' 0" by (simp add: startsWith_def)
  have b: "current (createParser :: json_atom ParseState) = None" by (simp add: createParser_def)
  have c: "\<not> startsWith ''<|channel|>final'' (start (delims_or_default None)) 0"
    by (simp add: startsWith_def delims_or_default_def DEFAULT_DELIMS_def)
  from push_channel_outside_message [OF a b c, of atom_json] a b c show ?thesis
    by (simp add: slice_from_def)
qed

section \<open>The round trip of rendering and parsing\<close>

subsection \<open>Finding the separators of a payload\<close>

lemma indexOf_scan_char:
  "c \<notin> set xs \<Longrightarrow> indexOf_scan [c] (xs @ c # ys) k = int (k + length xs)"
  by (induction xs arbitrary: k) auto

lemma indexOf_char_0:
  "c \<notin> set xs \<Longrightarrow> indexOf (xs @ c # ys) [c] 0 = int (length xs)"
  by (simp add: indexOf_def indexOf_scan_char)

lemma indexOf_char_from:
  "c \<notin> set ys \<Longrightarrow> indexOf (xs @ c # ys @ c # zs) [c] (int (length xs) + 1) = int (length xs + 1 + length ys)"
proof -
  assume a: "c \<notin> set ys"
  have "nat (int (length xs) + 1) = Suc (length xs)" by simp
  moreover have "drop (Suc (length xs)) (xs @ c # ys @ c # zs) = ys @ c # zs" by simp
  ultimately show ?thesis
    using indexOf_scan_char [OF a, of zs "Suc (length xs)"]
    by (simp add: indexOf_def min_def)
qed

lemma channel_no_colon: "isHarmonyChannel ch \<Longrightarrow> CHR '':'' \<notin> set ch"
  by (auto simp: isHarmonyChannel_def)

lemma push_all_append:
  "push_all J st (xs @ ys) d =
     (case push_all J st xs d of Inl e \<Rightarrow> Inl e | Inr st' \<Rightarrow> push_all J st' ys d)"
  by (induction xs arbitrary: st) (auto split: prod.splits option.splits)

lemma push_text_token:
  assumes "told_apart (delims_or_default d) (''text:'' @ ch @ '':'' @ t)"
      and "isHarmonyChannel ch" and "current st = Some m"
  shows "push J st (''text:'' @ ch @ '':'' @ t) d =
           (None, st\<lparr>current := Some (m\<lparr>content := content m @ [Text t ch]\<rparr>),
                     expectingPayload := Some False\<rparr>)"
proof -
  let ?D = "delims_or_default d"
  let ?tok = "''text:'' @ ch @ '':'' @ t"
  from assms(1) have 1: "\<not> startsWith ?tok (start ?D) 0"
    by (simp add: told_apart_def startsWith_def)
  have 2: "\<not> startsWith ?tok ''<|channel|>'' 0" by (simp add: startsWith_def)
  from assms(1) have 3: "?tok \<noteq> message ?D" "?tok \<noteq> end' ?D"
    by (simp_all add: told_apart_def)
  have 4: "startsWith ?tok ''text:'' 0" by (simp add: startsWith_def)
  have 5: "indexOf (slice_from ?tok (length ''text:'')) '':'' 0 = int (length ch)"
    using indexOf_char_0 [OF channel_no_colon [OF assms(2)], of t] by (simp add: slice_from_def)
  have 6: "slice (slice_from ?tok (length ''text:'')) 0 (length ch) = ch"
    by (simp add: slice_def slice_from_def)
  have 7: "slice_from (slice_from ?tok (length ''text:'')) (nat (int (length ch) + 1)) = t"
    by (simp add: slice_from_def nat_add_distrib)
  show ?thesis
    unfolding push_def Let_def
    using 1 2 3 4 5 6 7 assms(2,3) by (simp add: push_chunk_def)
qed

lemma push_tool_token:
  assumes "told_apart (delims_or_default d) (''tool:'' @ ns @ '':'' @ nm @ '':'' @ enc)"
      and "CHR '':'' \<notin> set ns" and "CHR '':'' \<notin> set nm"
      and "parse J enc = Some a"
      and "current st = Some m"
  shows "push J st (''tool:'' @ ns @ '':'' @ nm @ '':'' @ enc) d =
           (None, st\<lparr>current := Some (m\<lparr>content := content m @
                        [ToolCall \<lparr>namespace = ns, name = nm, arguments = a\<rparr>]\<rparr>),
                     expectingPayload := Some False\<rparr>)"
proof -
  let ?D = "delims_or_default d"
  let ?tok = "''tool:'' @ ns @ '':'' @ nm @ '':'' @ enc"
  let ?rest = "ns @ CHR '':'' # nm @ CHR '':'' # enc"
  from assms(1) have 1: "\<not> startsWith ?tok (start ?D) 0"
    by (simp add: told_apart_def startsWith_def)
  have 2: "\<not> startsWith ?tok ''<|channel|>'' 0" "\<not> startsWith ?tok ''text:'' 0"
    by (simp_all add: startsWith_def)
  from assms(1) have 3: "?tok \<noteq> message ?D" "?tok \<noteq> end' ?D"
    by (simp_all add: told_apart_def)
  have 4: "startsWith ?tok ''tool:'' 0" by (simp add: startsWith_def)
  have r: "slice_from ?tok (length ''tool:'') = ?rest" by (simp add: slice_from_def)
  have 5: "indexOf ?rest '':'' 0 = int (length ns)"
    using indexOf_char_0 [OF assms(2)] by simp
  have 6: "indexOf ?rest '':'' (int (length ns) + 1) = int (length ns + 1 + length nm)"
    using indexOf_char_from [OF assms(3), of ns enc] by simp
  let ?first = "indexOf ?rest '':'' 0"
  let ?second = "indexOf ?rest '':'' (?first + 1)"
  have c: "(?first < 0) = False" "(?second < 0) = False" by (simp_all add: 5 6)
  have 7: "slice ?rest 0 (nat ?first) = ns" by (simp add: 5 slice_def)
  have 8: "slice ?rest (nat (?first + 1)) (nat ?second) = nm"
    by (simp add: 5 6 slice_def nat_add_distrib)
  have 9: "slice_from ?rest (nat (?second + 1)) = enc"
    by (simp add: 5 6 slice_from_def nat_add_distrib)
  show ?thesis
    unfolding push_def Let_def r
    using 1 2 3 4 assms(4,5) by (simp add: push_chunk_def c 7 8 9)
qed

lemma push_start_token:
  assumes "isHarmonyRole r"
  shows "push J st (start (delims_or_default d) @ r) d =
           (None, st\<lparr>state_messages := close_current st,
                     current := Some \<lparr>role = r, content = []\<rparr>,
                     lastStreamingChannel := None, expectingPayload := Some False\<rparr>)"
  unfolding push_def Let_def
  using assms by (simp add: startsWith_def slice_from_def)

lemma push_message_token:
  assumes "\<not> prefix (start (delims_or_default d)) (message (delims_or_default d))"
  shows "\<exists>st'. push J st (message (delims_or_default d)) d = (None, st')
               \<and> current st' = current st \<and> state_messages st' = state_messages st"
  unfolding push_def Let_def
  using assms by (simp add: startsWith_def)

lemma push_end_token:
  assumes "\<not> prefix (start (delims_or_default d)) (end' (delims_or_default d))"
      and "current st = Some m"
  shows "\<exists>st'. push J st (end' (delims_or_default d)) d = (None, st')
               \<and> close_current st' = state_messages st @ [m]"
  unfolding push_def Let_def
  using assms by (simp add: startsWith_def close_current_def)

lemma push_payload_token:
  assumes "told_apart (delims_or_default d) (payload_token J chunk)"
      and "carried_chunk J chunk" and "current st = Some m"
  shows "\<exists>st'. push J st (payload_token J chunk) d = (None, st')
               \<and> current st' = Some (m\<lparr>content := content m @ [chunk]\<rparr>)
               \<and> state_messages st' = state_messages st"
proof (cases chunk)
  case (Text t ch)
  with assms show ?thesis
    using push_text_token [of d ch t st m J] by (simp add: payload_token_def)
next
  case (ToolCall c)
  with assms have "push J st (''tool:'' @ namespace c @ '':'' @ name c @ '':'' @ stringify J (arguments c)) d =
      (None, st\<lparr>current := Some (m\<lparr>content := content m @
                        [ToolCall \<lparr>namespace = namespace c, name = name c, arguments = arguments c\<rparr>]\<rparr>),
                     expectingPayload := Some False\<rparr>)"
    by (intro push_tool_token) (simp_all add: payload_token_def)
  with ToolCall show ?thesis by (simp add: payload_token_def)
qed

lemma push_all_chunks:
  "list_all (\<lambda>c. carried_chunk J c \<and> told_apart (delims_or_default d) (payload_token J c)) cs \<Longrightarrow>
   current st = Some m \<Longrightarrow>
     \<exists>st'. push_all J st (render_chunks J (delims_or_default d) cs) d = Inr st'
           \<and> current st' = Some (m\<lparr>content := content m @ cs\<rparr>)
           \<and> state_messages st' = state_messages st"
proof (induction cs arbitrary: st m)
  case Nil
  then show ?case by simp
next
  case (Cons c cs)
  let ?D = "delims_or_default d"
  from Cons.prems have cc: "carried_chunk J c" and ta: "told_apart ?D (payload_token J c)"
    and rest: "list_all (\<lambda>c. carried_chunk J c \<and> told_apart ?D (payload_token J c)) cs"
    by simp_all
  from ta have nm: "\<not> prefix (start ?D) (message ?D)" by (simp add: told_apart_def)
  from push_message_token [OF nm, of J st] obtain st1 where
    1: "push J st (message ?D) d = (None, st1)" "current st1 = current st"
       "state_messages st1 = state_messages st" by blast
  from 1 Cons.prems have "current st1 = Some m" by simp
  from push_payload_token [OF ta cc this] obtain st2 where
    2: "push J st1 (payload_token J c) d = (None, st2)"
       "current st2 = Some (m\<lparr>content := content m @ [c]\<rparr>)"
       "state_messages st2 = state_messages st1" by blast
  from Cons.IH [OF rest 2(2)] obtain st' where
    3: "push_all J st2 (render_chunks J ?D cs) d = Inr st'"
       "current st' = Some (m\<lparr>content := content m @ [c], content := content m @ [c] @ cs\<rparr>)"
       "state_messages st' = state_messages st2" by auto
  have "push_all J st (render_chunks J ?D (c # cs)) d = Inr st'"
    using 1(1) 2(1) 3(1) by (simp add: render_chunk_def)
  with 1 2 3 show ?case by simp
qed

lemma push_all_message:
  assumes "carried_message J (delims_or_default d) m"
  shows "\<exists>st'. push_all J st (render_message J (delims_or_default d) m) d = Inr st'
               \<and> close_current st' = close_current st @ [m]"
proof -
  let ?D = "delims_or_default d"
  let ?st1 = "st\<lparr>state_messages := close_current st,
                 current := Some \<lparr>role = role m, content = []\<rparr>,
                 lastStreamingChannel := None, expectingPayload := Some False\<rparr>"
  from assms have role: "isHarmonyRole (role m)" and ne: "\<not> prefix (start ?D) (end' ?D)"
    and cs: "list_all (\<lambda>c. carried_chunk J c \<and> told_apart ?D (payload_token J c)) (content m)"
    by (simp_all add: carried_message_def)
  have 1: "push J st (start ?D @ role m) d = (None, ?st1)"
    using push_start_token [OF role] .
  have "current ?st1 = Some \<lparr>role = role m, content = []\<rparr>" by simp
  from push_all_chunks [OF cs this] obtain st2 where
    2: "push_all J ?st1 (render_chunks J ?D (content m)) d = Inr st2"
       "current st2 = Some m" "state_messages st2 = close_current st" by auto
  from push_end_token [OF ne 2(2), of J] obtain st3 where
    3: "push J st2 (end' ?D) d = (None, st3)" "close_current st3 = state_messages st2 @ [m]"
    by blast
  have "push_all J st (render_message J ?D m) d = Inr st3"
    using 1 2(1) 3(1) by (simp add: render_message_def push_all_append)
  with 2(3) 3(2) show ?thesis by simp
qed

lemma push_all_messages:
  "list_all (carried_message J (delims_or_default d)) ms \<Longrightarrow>
     \<exists>st'. push_all J st (render_messages J (delims_or_default d) ms) d = Inr st'
           \<and> close_current st' = close_current st @ ms"
proof (induction ms arbitrary: st)
  case Nil
  then show ?case by simp
next
  case (Cons m ms)
  from Cons.prems have cm: "carried_message J (delims_or_default d) m"
    and rest: "list_all (carried_message J (delims_or_default d)) ms"
    by simp_all
  from push_all_message [OF cm, of st] obtain st1 where
    1: "push_all J st (render_message J (delims_or_default d) m) d = Inr st1"
       "close_current st1 = close_current st @ [m]" by blast
  from Cons.IH [OF rest, of st1] obtain st' where
    2: "push_all J st1 (render_messages J (delims_or_default d) ms) d = Inr st'"
       "close_current st' = close_current st1 @ ms" by blast
  from 1 2 show ?case by (simp add: push_all_append)
qed

lemma finish_close_current: "fst (finish st) = \<lparr>messages = close_current st\<rparr>"
  by (simp add: finish_def close_current_def split: option.splits)

text \<open>
  The default delimiters begin with \<open><\<close> and a payload begins with \<open>t\<close>: they are
  told apart whatever the payload is.
\<close>

lemma default_delims_told_apart: "told_apart DEFAULT_DELIMS (payload_token J c)"
  by (cases c) (simp_all add: told_apart_def payload_token_def DEFAULT_DELIMS_def)

text \<open>
  C1, as stated, fails, in two ways. A tool call whose namespace holds a colon is rendered
  to a token in which the parser takes the first colon for the end of the namespace: for
  the namespace \<open>a:b\<close>, the name \<open>c\<close> and the argument \<open>null\<close>, which \<open>JSON.parse\<close>
  reads back from its text, the parser splits \<open>tool:a:b:c:null\<close> into the namespace
  \<open>a\<close>, the name \<open>b\<close> and the arguments \<open>c:null\<close>, and throws
  \<open>INVALID_TOOL_ARGS\<close>. And with the same delimiters on both sides, a start marker that
  a payload begins with makes the parser take the payload for the start of a message:
  with the start marker \<open>t\<close>, the token \<open>text:message:Hi\<close> is rejected for its
  role \<open>ext:message:Hi\<close>.
\<close>

theorem render_parse_roundtrip_counterexample:
  "isHarmonyRole ''assistant''
   \<and> parse atom_json (stringify atom_json JNull) = Some JNull
   \<and> parseTokens atom_json
        (renderConversation atom_json
           \<lparr>messages = [\<lparr>role = ''assistant'',
                         content = [ToolCall \<lparr>namespace = ''a:b'', name = ''c'', arguments = JNull\<rparr>]\<rparr>]\<rparr>
           None) None
       = Inl (ThrownHarmony (HarmonyError ''INVALID_TOOL_ARGS'' ''Invalid JSON args''
                (Some [(''token'', ''tool:a:b:c:null''), (''args'', ''c:null'')])))
   \<and> isHarmonyRole ''user'' \<and> isHarmonyChannel ''message''
   \<and> parseTokens (atom_json :: json_atom JSON)
        (renderConversation atom_json
           \<lparr>messages = [\<lparr>role = ''user'', content = [Text ''Hi'' ''message'']\<rparr>]\<rparr>
           (Some \<lparr>delimiters = Some \<lparr>start = ''t'', message = ''<|message|>'', end' = ''<|end|>''\<rparr>\<rparr>))
        (Some \<lparr>start = ''t'', message = ''<|message|>'', end' = ''<|end|>''\<rparr>)
       = Inl (ThrownHarmony (HarmonyError ''INVALID_ROLE'' ''Unknown role: ext:message:Hi''
                (Some [(''token'', ''text:message:Hi''), (''role'', ''ext:message:Hi'')])))"
  by (simp add: isHarmonyRole_def isHarmonyChannel_def atom_json_def parseTokens_def renderConversation_def
        render_message_def render_chunk_def payload_token_def delims_or_default_def DEFAULT_DELIMS_def
        createParser_def push_def Let_def startsWith_def slice_from_def slice_def
        indexOf_def close_current_def push_chunk_def)

text \<open>
  C1, amended. For every conversation whose messages have one of the five roles, whose
  text chunks have one of the five channels, and whose tool calls have a namespace and a
  name without a colon and arguments that \<open>JSON.parse\<close> reads back from what
  \<open>JSON.stringify\<close> wrote, and for delimiters that \<open>push\<close> tells apart from the
  payloads of the conversation (the start marker is not a prefix of a message marker, an
  end marker or a payload that is rendered, and no payload is the message marker or the
  end marker), \<open>parseTokens\<close> with the delimiters used by \<open>renderConversation\<close>
  returns the conversation that was rendered. With the default delimiters the condition
  on the delimiters holds of every conversation. No hypothesis can be dropped: the
  converse is proved at the end of this section.
\<close>

theorem render_parse_roundtrip:
  assumes "list_all (carried_message J
             (delims_or_default (case options of None \<Rightarrow> None | Some opts \<Rightarrow> delimiters opts)))
             (messages conversation)"
  shows "parseTokens J (renderConversation J conversation options)
           (case options of None \<Rightarrow> None | Some opts \<Rightarrow> delimiters opts) = Inr conversation"
proof -
  let ?d = "case options of None \<Rightarrow> None | Some opts \<Rightarrow> delimiters opts"
  from push_all_messages [OF assms, of createParser] obtain st' where
    1: "push_all J createParser (render_messages J (delims_or_default ?d) (messages conversation)) ?d = Inr st'"
       "close_current st' = messages conversation"
    by (auto simp: createParser_def close_current_def)
  then show ?thesis
    by (simp add: parseTokens_def renderConversation_def finish_close_current)
qed

text \<open>
  The amended theorem at the default delimiters and a conversation of two messages, a
  text chunk from the user and a tool call from the assistant.
\<close>

theorem render_parse_roundtrip_witness:
  "list_all (carried_message atom_json
        (delims_or_default (case (None :: RenderOptions option) of None \<Rightarrow> None | Some opts \<Rightarrow> delimiters opts)))
        (messages \<lparr>messages = [\<lparr>role = ''user'', content = [Text ''Hi'' ''message'']\<rparr>,
                               \<lparr>role = ''assistant'', content = [ToolCall \<lparr>namespace = ''math'', name = ''add'', arguments = JTrue\<rparr>]\<rparr>]\<rparr>)
   \<and> parseTokens atom_json
        (renderConversation atom_json
           \<lparr>messages = [\<lparr>role = ''user'', content = [Text ''Hi'' ''message'']\<rparr>,
                        \<lparr>role = ''assistant'', content = [ToolCall \<lparr>namespace = ''math'', name = ''add'', arguments = JTrue\<rparr>]\<rparr>]\<rparr>
           None) None
       = Inr \<lparr>messages = [\<lparr>role = ''user'', content = [Text ''Hi'' ''message'']\<rparr>,
                          \<lparr>role = ''assistant'', content = [ToolCall \<lparr>namespace = ''math'', name = ''add'', arguments = JTrue\<rparr>]\<rparr>]\<rparr>"
proof -
  let ?c = "\<lparr>messages = [\<lparr>role = ''user'', content = [Text ''Hi'' ''message'']\<rparr>,
                        \<lparr>role = ''assistant'', content = [ToolCall \<lparr>namespace = ''math'', name = ''add'', arguments = JTrue\<rparr>]\<rparr>]\<rparr>"
  have b: "list_all (carried_message atom_json
        (delims_or_default (case (None :: RenderOptions option) of None \<Rightarrow> None | Some opts \<Rightarrow> delimiters opts)))
        (messages ?c)"
    by (simp add: carried_message_def told_apart_def payload_token_def isHarmonyRole_def
          isHarmonyChannel_def atom_json_def delims_or_default_def DEFAULT_DELIMS_def)
  from render_parse_roundtrip [OF b] b show ?thesis by simp
qed

subsection \<open>The converse of the round trip\<close>

text \<open>
  A successful \<open>push\<close> opens a message, adds a chunk to the open message, or leaves
  the messages as they are; which of the three depends on the token alone.
\<close>

lemma push_cases:
  assumes "push J st t d = (None, st')"
  shows "(prefix (start (delims_or_default d)) t \<and>
            isHarmonyRole (drop (length (start (delims_or_default d))) t) \<and>
            close_current st' =
              close_current st @ [\<lparr>role = drop (length (start (delims_or_default d))) t, content = []\<rparr>])
         \<or> (\<not> prefix (start (delims_or_default d)) t \<and> \<not> adds_chunk (delims_or_default d) t \<and>
              close_current st' = close_current st)
         \<or> (adds_chunk (delims_or_default d) t \<and>
              (\<exists>m c. current st = Some m \<and> current st' = Some (m\<lparr>content := content m @ [c]\<rparr>) \<and>
                     state_messages st' = state_messages st))"
proof -
  let ?D = "delims_or_default d"
  show ?thesis
  proof (cases "prefix (start ?D) t")
    case True
    with assms show ?thesis
      unfolding push_def Let_def
      by (auto simp: startsWith_def slice_from_def close_current_def split: if_splits option.splits)
  next
    case False
    note ns = False
    show ?thesis
    proof (cases "prefix ''<|channel|>'' t \<or> t = message ?D \<or> t = end' ?D")
      case True
      then have na: "\<not> adds_chunk ?D t" by (auto simp: adds_chunk_def)
      from assms ns True have "close_current st' = close_current st"
        unfolding push_def Let_def
        by (auto simp: startsWith_def close_current_def split: if_splits option.splits)
      with ns na show ?thesis by simp
    next
      case False
      note nc = False
      show ?thesis
      proof (cases "prefix ''text:'' t \<or> prefix ''tool:'' t")
        case False
        then have na: "\<not> adds_chunk ?D t" by (auto simp: adds_chunk_def)
        from assms ns nc False have "close_current st' = close_current st"
          unfolding push_def Let_def
          by (auto simp: startsWith_def close_current_def split: if_splits option.splits)
        with ns na show ?thesis by simp
      next
        case True
        with ns nc have a: "adds_chunk ?D t" by (auto simp: adds_chunk_def)
        from assms ns nc True
        have "\<exists>m c. current st = Some m \<and> current st' = Some (m\<lparr>content := content m @ [c]\<rparr>) \<and>
                     state_messages st' = state_messages st"
          unfolding push_def Let_def
          by (auto simp: startsWith_def push_chunk_def split: if_splits option.splits)
        with a show ?thesis by simp
      qed
    qed
  qed
qed

lemma push_counts:
  assumes "push J st t d = (None, st')"
  shows "length (close_current st') =
           length (close_current st) + (if prefix (start (delims_or_default d)) t then 1 else 0)"
    and "chunk_count (close_current st') =
           chunk_count (close_current st) + (if adds_chunk (delims_or_default d) t then 1 else 0)"
  using push_cases [OF assms]
  by (auto simp: chunk_count_def close_current_def adds_chunk_def)

lemma push_all_counts:
  "push_all J st toks d = Inr st' \<Longrightarrow>
     length (close_current st') =
       length (close_current st) + length (filter (prefix (start (delims_or_default d))) toks)
     \<and> chunk_count (close_current st') =
       chunk_count (close_current st) + length (filter (adds_chunk (delims_or_default d)) toks)"
proof (induction toks arbitrary: st)
  case Nil
  then show ?case by simp
next
  case (Cons t ts)
  obtain r st1 where p: "push J st t d = (r, st1)" by (cases "push J st t d")
  with Cons.prems have r: "r = None" and rest: "push_all J st1 ts d = Inr st'"
    by (cases r; simp)+
  from p r have p': "push J st t d = (None, st1)" by simp
  from push_counts [OF p'] Cons.IH [OF rest] show ?case by simp
qed


lemma length_filter_all: "length (filter P xs) = length xs \<Longrightarrow> \<forall>x \<in> set xs. P x"
proof (rule ccontr)
  assume a: "length (filter P xs) = length xs" and "\<not> (\<forall>x \<in> set xs. P x)"
  then obtain x where "x \<in> set xs" "\<not> P x" by blast
  then have "length (filter P xs) < length xs" by (rule length_filter_less)
  with a show False by simp
qed

text \<open>The tokens of a conversation other than the start tokens, and its payload tokens.\<close>

lemma starts_in_render_chunks_tokens:
  "set (render_chunks J D cs) = (if cs = [] then {} else {message D}) \<union> payload_token J ` set cs"
  by (induction cs) (auto simp: render_chunk_def)

lemma count_starts_render:
  "length (filter (prefix (start D)) (render_messages J D ms)) =
     length ms +
     length (filter (prefix (start D))
              (concat (map (\<lambda>m. render_chunks J D (content m) @ [end' D]) ms)))"
  by (induction ms) (simp_all add: render_message_def)

lemma adds_chunk_markers:
  "\<not> adds_chunk D (start D @ r)" "\<not> adds_chunk D (message D)" "\<not> adds_chunk D (end' D)"
  by (simp_all add: adds_chunk_def)

lemma count_adds_render_chunks:
  "length (filter (adds_chunk D) (render_chunks J D cs)) =
     length (filter (adds_chunk D) (map (payload_token J) cs))"
  by (induction cs) (simp_all add: render_chunk_def adds_chunk_markers)

lemma count_adds_render:
  "length (filter (adds_chunk D) (render_messages J D ms)) =
     length (filter (adds_chunk D) (concat (map (\<lambda>m. map (payload_token J) (content m)) ms)))"
  by (induction ms) (simp_all add: render_message_def adds_chunk_markers count_adds_render_chunks)

lemma length_payloads:
  "length (concat (map (\<lambda>m. map (payload_token J) (content m)) ms)) = chunk_count ms"
  by (induction ms) (simp_all add: chunk_count_def)


lemma told_apart_necessary:
  assumes "push_all J st (render_messages J (delims_or_default d) ms) d = Inr st'"
      and "length (close_current st') = length (close_current st) + length ms"
      and "chunk_count (close_current st') = chunk_count (close_current st) + chunk_count ms"
  shows "list_all (\<lambda>m. \<not> prefix (start (delims_or_default d)) (end' (delims_or_default d)) \<and>
                      list_all (\<lambda>c. told_apart (delims_or_default d) (payload_token J c)) (content m)) ms"
proof -
  let ?D = "delims_or_default d"
  let ?others = "concat (map (\<lambda>m. render_chunks J ?D (content m) @ [end' ?D]) ms)"
  let ?payloads = "concat (map (\<lambda>m. map (payload_token J) (content m)) ms)"
  from push_all_counts [OF assms(1)] assms(2,3)
  have a: "length (filter (prefix (start ?D)) (render_messages J ?D ms)) = length ms"
    and b: "length (filter (adds_chunk ?D) (render_messages J ?D ms)) = chunk_count ms"
    by simp_all
  from a have "filter (prefix (start ?D)) ?others = []"
    by (simp add: count_starts_render)
  then have no: "\<forall>t \<in> set ?others. \<not> prefix (start ?D) t"
    by (simp add: filter_empty_conv)
  from b have "length (filter (adds_chunk ?D) ?payloads) = length ?payloads"
    by (simp add: count_adds_render length_payloads)
  then have ac: "\<forall>p \<in> set ?payloads. adds_chunk ?D p" by (rule length_filter_all)
  show ?thesis
    unfolding list_all_iff
  proof (intro ballI conjI)
    fix m assume m: "m \<in> set ms"
    then have "end' ?D \<in> set ?others" by auto
    with no show "\<not> prefix (start ?D) (end' ?D)" by blast
  next
    fix m c assume m: "m \<in> set ms" and c: "c \<in> set (content m)"
    then have ne: "content m \<noteq> []" by auto
    from m c ne have "message ?D \<in> set ?others" "payload_token J c \<in> set ?others"
      by (auto simp: starts_in_render_chunks_tokens)
    with no have 1: "\<not> prefix (start ?D) (message ?D)" "\<not> prefix (start ?D) (payload_token J c)"
      by blast+
    from m c have "payload_token J c \<in> set ?payloads" by auto
    with ac have "adds_chunk ?D (payload_token J c)" by blast
    with 1 show "told_apart ?D (payload_token J c)"
      by (simp add: told_apart_def adds_chunk_def)
  qed
qed


lemma indexOf_scan_first:
  "indexOf_scan [c] s k = int (k + i) \<Longrightarrow> c \<notin> set (take i s)"
proof (induction s arbitrary: k i)
  case Nil
  then show ?case by simp
next
  case (Cons x xs)
  show ?case
  proof (cases "x = c")
    case True
    with Cons.prems have "i = 0" by simp
    then show ?thesis by simp
  next
    case False
    with Cons.prems have e: "indexOf_scan [c] xs (Suc k) = int (k + i)" by simp
    then have "0 \<le> indexOf_scan [c] xs (Suc k)" by simp
    from indexOf_scan_ge [OF this] e have "Suc k \<le> k + i" by simp
    then obtain j where j: "i = Suc j" by (cases i) simp_all
    with e have "indexOf_scan [c] xs (Suc k) = int (Suc k + j)" by simp
    from Cons.IH [OF this] False j show ?thesis by simp
  qed
qed

lemma push_text_payload:
  assumes "told_apart (delims_or_default d) (''text:'' @ after)"
      and "current st = Some m"
      and "push J st (''text:'' @ after) d = (None, st')"
  shows "isHarmonyChannel (slice after 0 (nat (indexOf after '':'' 0)))
         \<and> current st' = Some (m\<lparr>content := content m @
               [Text (slice_from after (nat (indexOf after '':'' 0 + 1)))
                     (slice after 0 (nat (indexOf after '':'' 0)))]\<rparr>)
         \<and> state_messages st' = state_messages st"
proof -
  let ?D = "delims_or_default d"
  let ?tok = "''text:'' @ after"
  from assms(1) have 1: "\<not> startsWith ?tok (start ?D) 0"
    by (simp add: told_apart_def startsWith_def)
  have 2: "\<not> startsWith ?tok ''<|channel|>'' 0" by (simp add: startsWith_def)
  from assms(1) have 3: "?tok \<noteq> message ?D" "?tok \<noteq> end' ?D"
    by (simp_all add: told_apart_def)
  have 4: "startsWith ?tok ''text:'' 0" by (simp add: startsWith_def)
  have r: "slice_from ?tok (length ''text:'') = after" by (simp add: slice_from_def)
  from assms(3) show ?thesis
    unfolding push_def Let_def r
    using 1 2 3 4 assms(2) by (auto simp: push_chunk_def split: if_splits)
qed

lemma push_tool_payload:
  assumes "told_apart (delims_or_default d) (''tool:'' @ rest)"
      and "current st = Some m"
      and "push J st (''tool:'' @ rest) d = (None, st')"
  shows "\<exists>a. 0 \<le> indexOf rest '':'' 0 \<and> 0 \<le> indexOf rest '':'' (indexOf rest '':'' 0 + 1)
             \<and> parse J (slice_from rest (nat (indexOf rest '':'' (indexOf rest '':'' 0 + 1) + 1))) = Some a
             \<and> current st' = Some (m\<lparr>content := content m @
                   [ToolCall \<lparr>namespace = slice rest 0 (nat (indexOf rest '':'' 0)),
                              name = slice rest (nat (indexOf rest '':'' 0 + 1))
                                       (nat (indexOf rest '':'' (indexOf rest '':'' 0 + 1))),
                              arguments = a\<rparr>]\<rparr>)
             \<and> state_messages st' = state_messages st"
proof -
  let ?D = "delims_or_default d"
  let ?tok = "''tool:'' @ rest"
  from assms(1) have 1: "\<not> startsWith ?tok (start ?D) 0"
    by (simp add: told_apart_def startsWith_def)
  have 2: "\<not> startsWith ?tok ''<|channel|>'' 0" "\<not> startsWith ?tok ''text:'' 0"
    by (simp_all add: startsWith_def)
  from assms(1) have 3: "?tok \<noteq> message ?D" "?tok \<noteq> end' ?D"
    by (simp_all add: told_apart_def)
  have 4: "startsWith ?tok ''tool:'' 0" by (simp add: startsWith_def)
  have r: "slice_from ?tok (length ''tool:'') = rest" by (simp add: slice_from_def)
  from assms(3) show ?thesis
    unfolding push_def Let_def r
    using 1 2 3 4 assms(2) by (auto simp: push_chunk_def split: if_splits option.splits)
qed

lemma tool_split_only_if:
  assumes F: "F = indexOf (ns @ '':'' @ nm @ '':'' @ enc) '':'' 0"
      and S: "S = indexOf (ns @ '':'' @ nm @ '':'' @ enc) '':'' (F + 1)"
      and f: "0 \<le> F" and s: "0 \<le> S"
      and e1: "slice (ns @ '':'' @ nm @ '':'' @ enc) 0 (nat F) = ns"
      and e2: "slice (ns @ '':'' @ nm @ '':'' @ enc) (nat (F + 1)) (nat S) = nm"
  shows "CHR '':'' \<notin> set ns \<and> CHR '':'' \<notin> set nm
         \<and> slice_from (ns @ '':'' @ nm @ '':'' @ enc) (nat (S + 1)) = enc"
proof -
  let ?rest = "ns @ '':'' @ nm @ '':'' @ enc"
  from e1 have "length (take (nat F) ?rest) = length ns" by (simp add: slice_def)
  then have nf: "nat F = length ns" by (simp add: min_def split: if_splits)
  with f have first: "F = int (length ns)" by simp
  from F have "F = indexOf_scan '':'' ?rest 0" by (simp add: indexOf_def)
  with first have "indexOf_scan '':'' ?rest 0 = int (0 + length ns)" by simp
  from indexOf_scan_first [OF this] have c1: "CHR '':'' \<notin> set ns" by simp
  have "nat (int (length ns) + 1) = Suc (length ns)" by simp
  moreover have "drop (Suc (length ns)) ?rest = nm @ '':'' @ enc" by simp
  ultimately have "indexOf ?rest '':'' (int (length ns) + 1) =
      indexOf_scan '':'' (nm @ '':'' @ enc) (Suc (length ns))"
    by (simp add: indexOf_def min_def)
  with S first have sc: "S = indexOf_scan '':'' (nm @ '':'' @ enc) (Suc (length ns))" by simp
  with s have "0 \<le> indexOf_scan '':'' (nm @ '':'' @ enc) (Suc (length ns))" by simp
  from indexOf_scan_ge [OF this] sc have ge: "int (Suc (length ns)) \<le> S" by simp
  from e2 first have "take (nat S - Suc (length ns)) (nm @ '':'' @ enc) = nm"
    by (simp add: slice_def nat_add_distrib)
  then have "length (take (nat S - Suc (length ns)) (nm @ '':'' @ enc)) = length nm" by simp
  then have "nat S - Suc (length ns) = length nm" by (simp add: min_def split: if_splits)
  with ge have second: "S = int (Suc (length ns) + length nm)" by linarith
  with sc have "indexOf_scan '':'' (nm @ '':'' @ enc) (Suc (length ns)) = int (Suc (length ns) + length nm)"
    by simp
  from indexOf_scan_first [OF this] have c2: "CHR '':'' \<notin> set nm" by simp
  have "slice_from ?rest (nat (S + 1)) = enc"
    by (simp add: second slice_from_def nat_add_distrib)
  with c1 c2 show ?thesis by simp
qed

lemma push_payload_only_if:
  assumes "told_apart (delims_or_default d) (payload_token J c)"
      and "current st = Some m"
      and "push J st (payload_token J c) d = (None, st')"
  shows "\<exists>c'. current st' = Some (m\<lparr>content := content m @ [c']\<rparr>)
              \<and> state_messages st' = state_messages st
              \<and> (c' = c \<longrightarrow> carried_chunk J c)"
proof (cases c)
  case (Text t ch)
  let ?after = "ch @ '':'' @ t"
  from Text have p: "payload_token J c = ''text:'' @ ?after" by (simp add: payload_token_def)
  from push_text_payload [OF assms(1) [unfolded p] assms(2) assms(3) [unfolded p]]
  have 1: "isHarmonyChannel (slice ?after 0 (nat (indexOf ?after '':'' 0)))"
    and 2: "current st' = Some (m\<lparr>content := content m @
               [Text (slice_from ?after (nat (indexOf ?after '':'' 0 + 1)))
                     (slice ?after 0 (nat (indexOf ?after '':'' 0)))]\<rparr>)"
    and 3: "state_messages st' = state_messages st" by simp_all
  from 1 Text have "Text (slice_from ?after (nat (indexOf ?after '':'' 0 + 1)))
                     (slice ?after 0 (nat (indexOf ?after '':'' 0))) = c \<longrightarrow> carried_chunk J c"
    by auto
  with 2 3 show ?thesis by blast
next
  case (ToolCall tc)
  let ?rest = "namespace tc @ '':'' @ name tc @ '':'' @ stringify J (arguments tc)"
  let ?first = "indexOf ?rest '':'' 0"
  let ?second = "indexOf ?rest '':'' (?first + 1)"
  from ToolCall have p: "payload_token J c = ''tool:'' @ ?rest" by (simp add: payload_token_def)
  from push_tool_payload [OF assms(1) [unfolded p] assms(2) assms(3) [unfolded p]]
  obtain a where f: "0 \<le> ?first" and s: "0 \<le> ?second"
    and pa: "parse J (slice_from ?rest (nat (?second + 1))) = Some a"
    and cur: "current st' = Some (m\<lparr>content := content m @
                   [ToolCall \<lparr>namespace = slice ?rest 0 (nat ?first),
                              name = slice ?rest (nat (?first + 1)) (nat ?second),
                              arguments = a\<rparr>]\<rparr>)"
    and sm: "state_messages st' = state_messages st" by blast
  have "ToolCall \<lparr>namespace = slice ?rest 0 (nat ?first),
                  name = slice ?rest (nat (?first + 1)) (nat ?second),
                  arguments = a\<rparr> = c \<longrightarrow> carried_chunk J c"
  proof
    assume "ToolCall \<lparr>namespace = slice ?rest 0 (nat ?first),
                  name = slice ?rest (nat (?first + 1)) (nat ?second),
                  arguments = a\<rparr> = c"
    with ToolCall have tc: "tc = \<lparr>namespace = slice ?rest 0 (nat ?first),
                  name = slice ?rest (nat (?first + 1)) (nat ?second),
                  arguments = a\<rparr>" by simp
    have e1: "slice ?rest 0 (nat ?first) = namespace tc" by (subst (3) tc) simp
    have e2: "slice ?rest (nat (?first + 1)) (nat ?second) = name tc" by (subst (5) tc) simp
    have e3: "a = arguments tc" by (subst tc) simp
    from tool_split_only_if [OF refl refl f s e1 e2] pa e3 ToolCall show "carried_chunk J c" by simp
  qed
  with cur sm show ?thesis by blast
qed

lemma push_all_Cons_Inr:
  "push_all J st (t # ts) d = Inr st' \<Longrightarrow>
     \<exists>st1. push J st t d = (None, st1) \<and> push_all J st1 ts d = Inr st'"
  by (cases "push J st t d") (auto split: option.splits)

lemma push_all_append_Inr:
  "push_all J st (xs @ ys) d = Inr st' \<Longrightarrow>
     \<exists>st1. push_all J st xs d = Inr st1 \<and> push_all J st1 ys d = Inr st'"
  by (cases "push_all J st xs d") (simp_all add: push_all_append)

lemma push_all_chunks_only_if:
  "list_all (\<lambda>c. told_apart (delims_or_default d) (payload_token J c)) cs \<Longrightarrow>
   current st = Some m \<Longrightarrow>
   push_all J st (render_chunks J (delims_or_default d) cs) d = Inr st' \<Longrightarrow>
     \<exists>cs'. current st' = Some (m\<lparr>content := content m @ cs'\<rparr>)
          \<and> state_messages st' = state_messages st
          \<and> (cs' = cs \<longrightarrow> list_all (carried_chunk J) cs)"
proof (induction cs arbitrary: st m)
  case Nil
  then show ?case by (intro exI [of _ "[]"]) simp
next
  case (Cons c cs)
  let ?D = "delims_or_default d"
  from Cons.prems(1) have ta: "told_apart ?D (payload_token J c)"
    and rest: "list_all (\<lambda>c. told_apart ?D (payload_token J c)) cs" by simp_all
  from ta have nm: "\<not> prefix (start ?D) (message ?D)" by (simp add: told_apart_def)
  from Cons.prems(3) have "push_all J st (message ?D # payload_token J c # render_chunks J ?D cs) d = Inr st'"
    by (simp add: render_chunk_def)
  from push_all_Cons_Inr [OF this] obtain st1 where
    1: "push J st (message ?D) d = (None, st1)"
    and r1: "push_all J st1 (payload_token J c # render_chunks J ?D cs) d = Inr st'" by blast
  from push_all_Cons_Inr [OF r1] obtain st2 where
    2: "push J st1 (payload_token J c) d = (None, st2)"
    and r2: "push_all J st2 (render_chunks J ?D cs) d = Inr st'" by blast
  from push_message_token [OF nm, of J st] 1 have
    c1: "current st1 = current st" and s1: "state_messages st1 = state_messages st" by auto
  from c1 Cons.prems(2) have "current st1 = Some m" by simp
  from push_payload_only_if [OF ta this 2] obtain c' where
    c2: "current st2 = Some (m\<lparr>content := content m @ [c']\<rparr>)"
    and s2: "state_messages st2 = state_messages st1"
    and k: "c' = c \<longrightarrow> carried_chunk J c" by blast
  from Cons.IH [OF rest c2 r2] obtain cs' where
    c3: "current st' = Some (m\<lparr>content := content m @ [c'], content := content m @ [c'] @ cs'\<rparr>)"
    and s3: "state_messages st' = state_messages st2"
    and k': "cs' = cs \<longrightarrow> list_all (carried_chunk J) cs" by auto
  from c3 have "current st' = Some (m\<lparr>content := content m @ (c' # cs')\<rparr>)" by simp
  moreover from s1 s2 s3 have "state_messages st' = state_messages st" by simp
  moreover from k k' have "c' # cs' = c # cs \<longrightarrow> list_all (carried_chunk J) (c # cs)" by simp
  ultimately show ?case by blast
qed

lemma push_all_message_only_if:
  assumes "\<not> prefix (start (delims_or_default d)) (end' (delims_or_default d))"
      and "list_all (\<lambda>c. told_apart (delims_or_default d) (payload_token J c)) (content m)"
      and "push_all J st (render_message J (delims_or_default d) m) d = Inr st'"
  shows "\<exists>m'. close_current st' = close_current st @ [m']
              \<and> (m' = m \<longrightarrow> carried_message J (delims_or_default d) m)"
proof -
  let ?D = "delims_or_default d"
  from assms(3) have "push_all J st ((start ?D @ role m) # (render_chunks J ?D (content m) @ [end' ?D])) d = Inr st'"
    by (simp add: render_message_def)
  from push_all_Cons_Inr [OF this] obtain st1 where
    1: "push J st (start ?D @ role m) d = (None, st1)"
    and r1: "push_all J st1 (render_chunks J ?D (content m) @ [end' ?D]) d = Inr st'" by blast
  from push_cases [OF 1] have role: "isHarmonyRole (role m)"
    by (auto simp: adds_chunk_def)
  from push_start_token [OF role, of J st d] 1
  have st1: "st1 = st\<lparr>state_messages := close_current st,
                        current := Some \<lparr>role = role m, content = []\<rparr>,
                        lastStreamingChannel := None, expectingPayload := Some False\<rparr>" by simp
  then have c1: "current st1 = Some \<lparr>role = role m, content = []\<rparr>"
    and s1: "state_messages st1 = close_current st" by simp_all
  from push_all_append_Inr [OF r1] obtain st2 where
    2: "push_all J st1 (render_chunks J ?D (content m)) d = Inr st2"
    and r2: "push_all J st2 [end' ?D] d = Inr st'" by blast
  from push_all_chunks_only_if [OF assms(2) c1 2] obtain cs' where
    c2: "current st2 = Some \<lparr>role = role m, content = cs'\<rparr>"
    and s2: "state_messages st2 = state_messages st1"
    and k: "cs' = content m \<longrightarrow> list_all (carried_chunk J) (content m)" by auto
  from push_all_Cons_Inr [OF r2] have 3: "push J st2 (end' ?D) d = (None, st')" by auto
  from push_end_token [OF assms(1) c2, of J] 3
  have "close_current st' = state_messages st2 @ [\<lparr>role = role m, content = cs'\<rparr>]" by auto
  with s1 s2 have a: "close_current st' = close_current st @ [\<lparr>role = role m, content = cs'\<rparr>]"
    by simp
  have "\<lparr>role = role m, content = cs'\<rparr> = m \<longrightarrow> carried_message J ?D m"
  proof
    assume e: "\<lparr>role = role m, content = cs'\<rparr> = m"
    then have "content \<lparr>role = role m, content = cs'\<rparr> = content m" by (rule arg_cong)
    then have "cs' = content m" by simp
    with k have "list_all (carried_chunk J) (content m)" by simp
    with assms(1,2) role show "carried_message J ?D m"
      by (simp add: carried_message_def list_all_iff)
  qed
  with a show ?thesis by blast
qed

lemma push_all_messages_only_if:
  "list_all (\<lambda>m. \<not> prefix (start (delims_or_default d)) (end' (delims_or_default d)) \<and>
                 list_all (\<lambda>c. told_apart (delims_or_default d) (payload_token J c)) (content m)) ms \<Longrightarrow>
   push_all J st (render_messages J (delims_or_default d) ms) d = Inr st' \<Longrightarrow>
     \<exists>ms'. close_current st' = close_current st @ ms' \<and> length ms' = length ms
          \<and> (ms' = ms \<longrightarrow> list_all (carried_message J (delims_or_default d)) ms)"
proof (induction ms arbitrary: st)
  case Nil
  then show ?case by simp
next
  case (Cons m ms)
  let ?D = "delims_or_default d"
  note h = Cons.prems(1) [unfolded list.pred_inject]
  from h have ne: "\<not> prefix (start ?D) (end' ?D)" by (rule conjunct1 [THEN conjunct1])
  from h have ta: "list_all (\<lambda>c. told_apart ?D (payload_token J c)) (content m)"
    by (rule conjunct1 [THEN conjunct2])
  from h have rest: "list_all (\<lambda>m. \<not> prefix (start ?D) (end' ?D) \<and>
                 list_all (\<lambda>c. told_apart ?D (payload_token J c)) (content m)) ms"
    by (rule conjunct2)
  from Cons.prems(2) have "push_all J st (render_message J ?D m @ render_messages J ?D ms) d = Inr st'"
    by simp
  from push_all_append_Inr [OF this] obtain st1 where
    1: "push_all J st (render_message J ?D m) d = Inr st1"
    and r1: "push_all J st1 (render_messages J ?D ms) d = Inr st'" by blast
  from push_all_message_only_if [OF ne ta 1] obtain m' where
    a: "close_current st1 = close_current st @ [m']"
    and k: "m' = m \<longrightarrow> carried_message J ?D m" by blast
  from Cons.IH [OF rest r1] obtain ms' where
    b: "close_current st' = close_current st1 @ ms'" and l: "length ms' = length ms"
    and k': "ms' = ms \<longrightarrow> list_all (carried_message J ?D) ms" by blast
  from a b have "close_current st' = close_current st @ (m' # ms')" by simp
  moreover from l have "length (m' # ms') = length (m # ms)" by simp
  moreover from k k' have "m' # ms' = m # ms \<longrightarrow> list_all (carried_message J ?D) (m # ms)" by simp
  ultimately show ?case by blast
qed

text \<open>
  The hypotheses of the round trip are necessary as well: a conversation that
  \<open>parseTokens\<close> returns from its own tokens satisfies them.
\<close>

lemma roundtrip_conditions_necessary:
  assumes "parseTokens J (renderConversation J conversation options)
             (case options of None \<Rightarrow> None | Some opts \<Rightarrow> delimiters opts) = Inr conversation"
  shows "list_all (carried_message J
           (delims_or_default (case options of None \<Rightarrow> None | Some opts \<Rightarrow> delimiters opts)))
           (messages conversation)"
proof -
  let ?d = "case options of None \<Rightarrow> None | Some opts \<Rightarrow> delimiters opts"
  let ?D = "delims_or_default ?d"
  let ?ms = "messages conversation"
  from assms obtain st' where
    p: "push_all J createParser (render_messages J ?D ?ms) ?d = Inr st'"
    and f: "fst (finish st') = conversation"
    by (auto simp: parseTokens_def renderConversation_def split: sum.splits)
  from f have "messages (fst (finish st')) = ?ms" by (rule arg_cong)
  then have c: "close_current st' = ?ms" by (simp add: finish_close_current)
  have e: "close_current (createParser :: 'a ParseState) = []"
    by (simp add: createParser_def close_current_def)
  from c e have l: "length (close_current st') = length (close_current (createParser :: 'a ParseState)) + length ?ms"
    and n: "chunk_count (close_current st') = chunk_count (close_current (createParser :: 'a ParseState)) + chunk_count ?ms"
    by (simp_all add: chunk_count_def)
  from told_apart_necessary [OF p l n] have cond:
    "list_all (\<lambda>m. \<not> prefix (start ?D) (end' ?D) \<and>
                 list_all (\<lambda>c. told_apart ?D (payload_token J c)) (content m)) ?ms" .
  from push_all_messages_only_if [OF cond p] c e show ?thesis by auto
qed

section \<open>Properties of the format detector and of the extractors\<close>

subsection \<open>Searching and containing\<close>

text \<open>
  \<open>includes\<close>, \<open>indexOf\<close> and \<open>lastIndexOf\<close> find a pattern exactly when the text
  contains it: when the text is some prefix, the pattern, and some suffix.
\<close>

lemma indexOf_scan_sublist: "(0 \<le> indexOf_scan p s k) = sublist p s"
  by (induction s arbitrary: k) (auto simp: sublist_Cons_right)

lemma includes_str_sublist: "includes_str s p = sublist p s"
  by (simp add: includes_str_def indexOf_def indexOf_scan_sublist)

lemma lastIndexOf_scan_sublist: "0 \<le> lastIndexOf_scan p s k \<Longrightarrow> sublist p s"
  by (induction s arbitrary: k) (auto simp: sublist_Cons_right Let_def split: if_splits)

lemma lastIndexOf_absent: "\<not> sublist p s \<Longrightarrow> lastIndexOf s p < 0"
  using lastIndexOf_scan_sublist [of p s 0] by (auto simp: lastIndexOf_def)

text \<open>
  C4. \<open>isHarmonyFormat\<close> is a total function to the Booleans. It is false for
  \<open>undefined\<close>, for \<open>null\<close>, for every value that is not a string and for the empty
  string; for a non-empty string it is true exactly when the string contains the start
  marker or the channel marker, and contains the channel marker, and contains the message
  marker or the end marker.
\<close>

theorem isHarmonyFormat_iff:
  "isHarmonyFormat input d =
     (case input of
        JSString s \<Rightarrow>
          s \<noteq> [] \<and>
          (sublist (start (delims_or_default d)) s \<or> sublist ''<|channel|>'' s) \<and>
          sublist ''<|channel|>'' s \<and>
          (sublist (message (delims_or_default d)) s \<or> sublist (end' (delims_or_default d)) s)
      | _ \<Rightarrow> False)"
  by (cases input) (auto simp: isHarmonyFormat_def includes_str_sublist Let_def)

lemma safeExtractChannel_absent:
  "\<not> sublist (''<|channel|>'' @ channel) s \<Longrightarrow> safeExtractChannel s channel = []"
  using lastIndexOf_absent [of "''<|channel|>'' @ channel" s]
  by (simp add: safeExtractChannel_def Let_def)

text \<open>
  Where the input does not hold the text \<open><|channel|>final\<close> at all, the final text is
  empty and \<open>extractFinalContent\<close> falls back to what \<open>safeExtractChannel\<close> finds for
  the commentary; an input that is not in the Harmony format is returned as it is.
\<close>

lemma extractFinalContent_without_final_tag:
  "(isHarmonyFormat (JSString s) None \<and> \<not> sublist ''<|channel|>final'' s
      \<longrightarrow> extractFinalContent s = extractCommentaryContent s)
   \<and> (\<not> isHarmonyFormat (JSString s) None \<longrightarrow> extractFinalContent s = s)"
  using safeExtractChannel_absent [of "''final''" s]
  by (simp add: extractFinalContent_def extractCommentaryContent_def Let_def)

text \<open>The two tests of the repository: a commentary channel only, and a plain text.\<close>

lemma extractFinalContent_tests:
  "extractFinalContent ''<|start|>assistant<|channel|>commentary<|message|>Commentary text<|end|>''
     = ''Commentary text''"
  "extractFinalContent ''Plain text answer'' = ''Plain text answer''"
  by code_simp+

text \<open>
  C7. \<open>extractFinalContent\<close> is to return the commentary text of a string in the Harmony
  format that has a commentary channel and no final channel, and a string without markers
  unchanged. The second half holds. The first fails on the code at
  \<open><|channel|>finalize<|message|>F<|end|><|channel|>commentary<|message|>C\<close>: the string
  is in the Harmony format, its channels are named \<open>finalize\<close> and \<open>commentary\<close>, and the
  pattern of the streaming extractor finds in it no body of a channel \<open>final\<close> and the
  body \<open>C\<close> of the channel \<open>commentary\<close>; yet \<open>extractFinalContent\<close> returns \<open>F\<close>, the
  body of \<open>finalize\<close>, since \<open>safeExtractChannel\<close> looks for the text
  \<open><|channel|>final\<close> and finds it at the head of \<open><|channel|>finalize\<close>.
\<close>

theorem extractFinalContent_finalize:
  "isHarmonyFormat
     (JSString ''<|channel|>finalize<|message|>F<|end|><|channel|>commentary<|message|>C'') None
   \<and> channel_bodies ''final''
         ''<|channel|>finalize<|message|>F<|end|><|channel|>commentary<|message|>C'' = []
   \<and> channel_bodies ''commentary''
         ''<|channel|>finalize<|message|>F<|end|><|channel|>commentary<|message|>C'' = [''C'']
   \<and> extractCommentaryContent
         ''<|channel|>finalize<|message|>F<|end|><|channel|>commentary<|message|>C'' = ''C''
   \<and> extractFinalContent
         ''<|channel|>finalize<|message|>F<|end|><|channel|>commentary<|message|>C'' = ''F''"
  by code_simp

section \<open>Properties of the tokenizer\<close>

subsection \<open>Every round of the loop moves on\<close>

lemma min_index_mem: "min_index mn xs \<in> set (mn # xs)"
  by (induction xs arbitrary: mn) auto

lemma findNextDelimiterIndex_after:
  assumes "i < length input"
      and "\<not> startsWith input (start d) i" and "\<not> startsWith input (message d) i"
      and "\<not> startsWith input (end' d) i"
  shows "i < findNextDelimiterIndex input i d"
proof -
  let ?indices = "[indexOf input (start d) (int i), indexOf input (message d) (int i),
                   indexOf input (end' d) (int i)]"
  let ?idxs = "filter (\<lambda>x. 0 \<le> x) ?indices"
  show ?thesis
  proof (cases "?idxs = []")
    case True
    with assms(1) show ?thesis by (simp add: findNextDelimiterIndex_def Let_def)
  next
    case False
    have all: "\<forall>x \<in> set ?idxs. int i < x"
      using indexOf_after [OF assms(1) assms(2)] indexOf_after [OF assms(1) assms(3)]
            indexOf_after [OF assms(1) assms(4)] by auto
    from False have "min_index (hd ?idxs) (tl ?idxs) \<in> set ?idxs"
      using min_index_mem [of "hd ?idxs" "tl ?idxs"] by (metis list.collapse)
    with all have gt: "int i < min_index (hd ?idxs) (tl ?idxs)" by blast
    have "findNextDelimiterIndex input i d = nat (min_index (hd ?idxs) (tl ?idxs))"
      unfolding findNextDelimiterIndex_def Let_def using False
      by (simp only: length_0_conv if_False)
    with gt show ?thesis by linarith
  qed
qed


lemma role_end_ge: "j \<le> role_end input j"
proof (induction input j rule: role_end.induct)
  case (1 input j)
  show ?case
  proof (cases "j < length input \<and> isLowerLetter (input ! j)")
    case True
    with 1 have "j + 1 \<le> role_end input (j + 1)" by simp
    moreover from True have "role_end input j = role_end input (j + 1)"
      by (subst role_end.simps) simp
    ultimately show ?thesis by simp
  next
    case False
    then have "role_end input j = j" by (subst role_end.simps) auto
    then show ?thesis by simp
  qed
qed


lemma tokenize_loop_returns:
  assumes "start d \<noteq> []" and "message d \<noteq> []" and "end' d \<noteq> []"
  shows "\<exists>r. tokenize_loop d input i tokens = Some r"
proof (induction "length input - i" arbitrary: i tokens rule: less_induct)
  case less
  show ?case
  proof (cases "i < length input")
    case False
    then show ?thesis by (subst tokenize_loop.simps) simp
  next
    case True
    note lt = True
    show ?thesis
    proof (cases "startsWith input (start d) i")
      case True
      let ?j = "role_end input (i + length (start d))"
      from assms(1) have "0 < length (start d)" by simp
      with role_end_ge [of "i + length (start d)" input] have "i < ?j" by linarith
      with lt have "length input - ?j < length input - i" by linarith
      from less [OF this] obtain r where
        "tokenize_loop d input ?j (tokens @ [slice input i ?j]) = Some r" by blast
      with lt True show ?thesis by (subst tokenize_loop.simps) simp
    next
      case False
      note ns = False
      show ?thesis
      proof (cases "startsWith input (message d) i")
        case True
        from assms(2) have "0 < length (message d)" by simp
        with lt have "length input - (i + length (message d)) < length input - i" by linarith
        from less [OF this] obtain r where
          "tokenize_loop d input (i + length (message d)) (tokens @ [message d]) = Some r" by blast
        with lt ns True show ?thesis by (subst tokenize_loop.simps) simp
      next
        case False
        note nm = False
        show ?thesis
        proof (cases "startsWith input (end' d) i")
          case True
          from assms(3) have "0 < length (end' d)" by simp
          with lt have "length input - (i + length (end' d)) < length input - i" by linarith
          from less [OF this] obtain r where
            "tokenize_loop d input (i + length (end' d)) (tokens @ [end' d]) = Some r" by blast
          with lt ns nm True show ?thesis by (subst tokenize_loop.simps) simp
        next
          case False
          let ?n = "findNextDelimiterIndex input i d"
          let ?t = "if 0 < length (slice input i ?n) then tokens @ [slice input i ?n] else tokens"
          from findNextDelimiterIndex_after [OF lt ns nm False] have "i < ?n" .
          with lt have "length input - ?n < length input - i" by linarith
          from less [OF this] obtain r where "tokenize_loop d input ?n ?t = Some r" by blast
          with lt ns nm False show ?thesis by (subst tokenize_loop.simps) simp
        qed
      qed
    qed
  qed
qed


lemma tokenize_loop_empty_start_diverges:
  "tokenize_loop \<lparr>start = [], message = ''<|message|>'', end' = ''<|end|>''\<rparr> ''A'' 0 tokens = None"
proof (rule ccontr)
  let ?d = "\<lparr>start = [], message = ''<|message|>'', end' = ''<|end|>''\<rparr>"
  assume "tokenize_loop ?d ''A'' 0 tokens \<noteq> None"
  then obtain y where y: "tokenize_loop ?d ''A'' 0 tokens = Some y" by blast
  have "\<not> (?d = ?d \<and> ''A'' = ''A'' \<and> (0::nat) = 0)"
  proof (rule tokenize_loop.raw_induct
      [where P = "\<lambda>delims input i tokens y. \<not> (delims = ?d \<and> input = ''A'' \<and> i = 0)", OF _ y])
    fix f :: "HarmonyDelimiters \<Rightarrow> string \<Rightarrow> nat \<Rightarrow> string list \<Rightarrow> string list option"
      and delims input i tokens r
    assume IH: "\<And>delims input i tokens y. f delims input i tokens = Some y \<Longrightarrow>
                  \<not> (delims = ?d \<and> input = ''A'' \<and> i = 0)"
    assume step: "(if i < length input
      then if startsWith input (start delims) i
           then f delims input (role_end input (i + length (start delims)))
                 (tokens @ [slice input i (role_end input (i + length (start delims)))])
           else if startsWith input (message delims) i
                then f delims input (i + length (message delims)) (tokens @ [message delims])
                else if startsWith input (end' delims) i
                     then f delims input (i + length (end' delims)) (tokens @ [end' delims])
                     else f delims input (findNextDelimiterIndex input i delims)
                           (if 0 < length (slice input i (findNextDelimiterIndex input i delims))
                            then tokens @ [slice input i (findNextDelimiterIndex input i delims)]
                            else tokens)
      else Some tokens) = Some r"
    show "\<not> (delims = ?d \<and> input = ''A'' \<and> i = 0)"
    proof
      assume c: "delims = ?d \<and> input = ''A'' \<and> i = 0"
      have re: "role_end ''A'' 0 = 0" by (subst role_end.simps) (simp add: isLowerLetter_def)
      from step c re have "f ?d ''A'' 0 (tokens @ [slice ''A'' 0 0]) = Some r"
        by (simp add: startsWith_def)
      from IH [OF this] show False by simp
    qed
  qed
  then show False by simp
qed


text \<open>
  C8, as stated, fails: with an empty start marker the loop of the tokenizer never ends.
  On the input \<open>A\<close> the start marker matches at position 0, the role after it is empty,
  an empty token is pushed and the position stays 0.
\<close>

theorem tokenizeCompletionString_counterexample:
  "tokenizeCompletionString ''A''
     (Some \<lparr>start = [], message = ''<|message|>'', end' = ''<|end|>''\<rparr>) = None"
  by (simp add: tokenizeCompletionString_def delims_or_default_def
        tokenize_loop_empty_start_diverges)

text \<open>
  C8, amended. With delimiters none of which is empty, the default ones among them, the
  tokenizer returns a list of tokens for every input string; and with the default
  delimiters the tokens of \<open><|start|>user<|message|>Hello<|end|>\<close> are
  \<open><|start|>user\<close>, \<open><|message|>\<close>, \<open>Hello\<close> and \<open><|end|>\<close>.
\<close>

theorem tokenizeCompletionString_returns:
  assumes "start (delims_or_default d) \<noteq> []"
      and "message (delims_or_default d) \<noteq> []"
      and "end' (delims_or_default d) \<noteq> []"
  shows "(\<exists>tokens. tokenizeCompletionString input d = Some tokens)
         \<and> tokenizeCompletionString ''<|start|>user<|message|>Hello<|end|>'' None
             = Some [''<|start|>user'', ''<|message|>'', ''Hello'', ''<|end|>'']"
proof
  show "\<exists>tokens. tokenizeCompletionString input d = Some tokens"
    unfolding tokenizeCompletionString_def using assms by (rule tokenize_loop_returns)
  show "tokenizeCompletionString ''<|start|>user<|message|>Hello<|end|>'' None
          = Some [''<|start|>user'', ''<|message|>'', ''Hello'', ''<|end|>'']"
    by (simp add: tokenizeCompletionString_def tokenize_loop.simps delims_or_default_def
          DEFAULT_DELIMS_def startsWith_def slice_def findNextDelimiterIndex_def indexOf_def
          isLowerLetter_def role_end.simps)
qed

text \<open>The amended theorem at the default delimiters and a text without any marker.\<close>

theorem tokenizeCompletionString_returns_witness:
  "start (delims_or_default None) \<noteq> []
   \<and> message (delims_or_default None) \<noteq> []
   \<and> end' (delims_or_default None) \<noteq> []
   \<and> (\<exists>tokens. tokenizeCompletionString ''Plain text without delimiters'' None = Some tokens)
   \<and> tokenizeCompletionString ''<|start|>user<|message|>Hello<|end|>'' None
       = Some [''<|start|>user'', ''<|message|>'', ''Hello'', ''<|end|>'']"
proof -
  have a: "start (delims_or_default None) \<noteq> []" "message (delims_or_default None) \<noteq> []"
    "end' (delims_or_default None) \<noteq> []"
    by (simp_all add: delims_or_default_def DEFAULT_DELIMS_def)
  from tokenizeCompletionString_returns [OF a, of "''Plain text without delimiters''"] a
  show ?thesis by simp
qed

section \<open>Properties of the streaming extractor\<close>

subsection \<open>Counting markers\<close>

text \<open>
  A marker cannot overlap itself, so the matches that a global regular expression finds
  for it are all its occurrences.
\<close>

lemma occurrences_pos: "p \<noteq> [] \<Longrightarrow> (0 < occurrences p s) = sublist p s"
  by (induction s) (auto simp: sublist_Cons_right)

lemma occurrences_skip:
  "p \<noteq> [] \<Longrightarrow> hd p \<notin> set xs \<Longrightarrow> occurrences p (xs @ ys) = occurrences p ys"
proof (induction xs)
  case Nil
  then show ?case by simp
next
  case (Cons x xs)
  from Cons.prems have "\<not> prefix p (x # xs @ ys)"
    by (cases p) auto
  with Cons show ?case by simp
qed

lemma match_positions_occurrences:
  "p \<noteq> [] \<Longrightarrow> hd p \<notin> set (tl p) \<Longrightarrow> length (match_positions p s k) = occurrences p s"
proof (induction p s k rule: match_positions.induct)
  case (1 p k)
  then show ?case by simp
next
  case (2 p c cs k)
  show ?case
  proof (cases "prefix p (c # cs)")
    case False
    with 2 show ?thesis by simp
  next
    case True
    then obtain rest where r: "c # cs = p @ rest" by (auto simp: prefix_def)
    with "2.prems"(1) have cs: "cs = tl p @ rest" by (cases p) auto
    then have d: "drop (length p - 1) cs = rest" by simp
    from occurrences_skip [OF "2.prems", of rest] cs have "occurrences p cs = occurrences p rest" by simp
    with True 2 d show ?thesis by simp
  qed
qed

lemma count_start: "length (match_positions ''<|start|>'' s k) = occurrences ''<|start|>'' s"
  by (rule match_positions_occurrences) simp_all

lemma count_end: "length (match_positions ''<|end|>'' s k) = occurrences ''<|end|>'' s"
  by (rule match_positions_occurrences) simp_all

lemma detectCurrentChannel_buffer: "buffer (detectCurrentChannel this) = buffer this"
  by (simp add: detectCurrentChannel_def Let_def)

lemma parseMarkedBuffer_Some:
  assumes "parseMarkedBuffer E this = Some snap"
  shows "bufferContent snap = buffer this"
    and "lastChannelDetected snap = currentChannel this"
    and "isComplete snap =
           (occurrences ''<|start|>'' (buffer this) = occurrences ''<|end|>'' (buffer this) \<and>
            0 < occurrences ''<|start|>'' (buffer this))"
  using assms unfolding parseMarkedBuffer_def Let_def
  by (auto simp: count_start count_end split: option.splits prod.splits)

lemma literal_names:
  "regexp_literal ''analysis''" "regexp_literal ''final''" "regexp_literal ''commentary''"
  by (simp_all add: regexp_literal_def regexp_syntax_chars_def)

lemma collectChannelText_literal:
  "regexp_literal channel \<Longrightarrow> collectChannelText E input channel \<noteq> None"
  by (simp add: collectChannelText_def exec_all_def)

lemma collectLastChannelText_literal:
  "regexp_literal channel \<Longrightarrow> collectLastChannelText E input channel \<noteq> None"
  by (simp add: collectLastChannelText_def exec_all_def)

lemma parseMarkedBuffer_None:
  assumes "parseMarkedBuffer E this = None"
  shows "\<exists>ch. currentChannel this = Some ch \<and> \<not> regexp_literal ch"
proof (cases "currentChannel this")
  case None
  with assms show ?thesis
    using collectChannelText_literal [OF literal_names(1), of E "messageWindow (buffer this)"]
          collectChannelText_literal [OF literal_names(2), of E "messageWindow (buffer this)"]
          collectChannelText_literal [OF literal_names(3), of E "messageWindow (buffer this)"]
    unfolding parseMarkedBuffer_def Let_def
    by (auto split: option.splits prod.splits)
next
  case (Some ch)
  show ?thesis
  proof (cases "regexp_literal ch")
    case False
    with Some show ?thesis by simp
  next
    case True
    with assms Some show ?thesis
      using collectChannelText_literal [OF literal_names(1), of E "messageWindow (buffer this)"]
            collectChannelText_literal [OF literal_names(2), of E "messageWindow (buffer this)"]
            collectChannelText_literal [OF literal_names(3), of E "messageWindow (buffer this)"]
            collectLastChannelText_literal [OF True, of E "messageWindow (buffer this)"]
      unfolding parseMarkedBuffer_def Let_def
      by (auto split: option.splits prod.splits)
  qed
qed

lemma addContent_buffer: "buffer (snd (addContent E this c)) = buffer this @ c"
  by (simp add: addContent_def parseCurrentBuffer_def Let_def detectCurrentChannel_buffer)

lemma addContent_Some:
  assumes "fst (addContent E this c) = Some snap"
  shows "bufferContent snap = buffer this @ c"
    and "isComplete snap =
           (occurrences ''<|start|>'' (buffer this @ c) = occurrences ''<|end|>'' (buffer this @ c) \<and>
            0 < occurrences ''<|start|>'' (buffer this @ c))"
proof -
  let ?t = "this\<lparr>buffer := buffer this @ c\<rparr>"
  let ?b = "buffer this @ c"
  show "bufferContent snap = buffer this @ c"
  proof (cases "includes_str ?b ''<|start|>'' \<or> includes_str ?b ''<|channel|>'' \<or> includes_str ?b ''<|message|>''")
    case False
    with assms show ?thesis by (auto simp: addContent_def parseCurrentBuffer_def Let_def)
  next
    case True
    with assms have "parseMarkedBuffer E (detectCurrentChannel ?t) = Some snap"
      by (auto simp: addContent_def parseCurrentBuffer_def Let_def)
    from parseMarkedBuffer_Some(1) [OF this] show ?thesis by (simp add: detectCurrentChannel_buffer)
  qed
  show "isComplete snap =
           (occurrences ''<|start|>'' ?b = occurrences ''<|end|>'' ?b \<and> 0 < occurrences ''<|start|>'' ?b)"
  proof (cases "includes_str ?b ''<|start|>'' \<or> includes_str ?b ''<|channel|>'' \<or> includes_str ?b ''<|message|>''")
    case False
    then have "\<not> sublist ''<|start|>'' ?b" by (simp add: includes_str_sublist)
    then have "\<not> 0 < occurrences ''<|start|>'' ?b" by (simp add: occurrences_pos)
    moreover from False assms have "isComplete snap = False"
      by (auto simp: addContent_def parseCurrentBuffer_def Let_def)
    ultimately show ?thesis by simp
  next
    case True
    with assms have "parseMarkedBuffer E (detectCurrentChannel ?t) = Some snap"
      by (auto simp: addContent_def parseCurrentBuffer_def Let_def)
    from parseMarkedBuffer_Some(3) [OF this] show ?thesis by (simp add: detectCurrentChannel_buffer)
  qed
qed

lemma addContent_None:
  assumes "fst (addContent E this c) = None"
  shows "\<exists>ch. currentChannel (snd (addContent E this c)) = Some ch \<and> \<not> regexp_literal ch"
proof -
  let ?t = "this\<lparr>buffer := buffer this @ c\<rparr>"
  let ?b = "buffer this @ c"
  show ?thesis
  proof (cases "includes_str ?b ''<|start|>'' \<or> includes_str ?b ''<|channel|>'' \<or> includes_str ?b ''<|message|>''")
    case False
    with assms show ?thesis by (auto simp: addContent_def parseCurrentBuffer_def Let_def)
  next
    case True
    with assms have "parseMarkedBuffer E (detectCurrentChannel ?t) = None"
      by (auto simp: addContent_def parseCurrentBuffer_def Let_def)
    from parseMarkedBuffer_None [OF this] True show ?thesis
      by (auto simp: addContent_def parseCurrentBuffer_def Let_def)
  qed
qed

text \<open>
  C3. The \<open>isComplete\<close> flag of a snapshot returned by \<open>addContent\<close> is true exactly
  when the start marker occurs in the whole buffer as often as the end marker, and at
  least once. A call returns a snapshot unless the channel it has detected has a
  character with a meaning in regular expressions. Completeness is not monotonic: after
  \<open><|start|>one<|start|>two<|message|>content\<close> the flag is false, after one \<open><|end|>\<close>
  it is still false, and after a second \<open><|end|>\<close> it is true.
\<close>

theorem isComplete_iff_balanced:
  "(\<forall>snap. fst (addContent E this content') = Some snap \<longrightarrow>
      isComplete snap =
        (occurrences ''<|start|>'' (buffer this @ content') =
           occurrences ''<|end|>'' (buffer this @ content') \<and>
         0 < occurrences ''<|start|>'' (buffer this @ content')))
   \<and> (fst (addContent E this content') = None \<longrightarrow>
        (\<exists>ch. currentChannel (snd (addContent E this content')) = Some ch \<and> \<not> regexp_literal ch))
   \<and> map (map_option isComplete)
        (fst (feed E new_HarmonyStreamParser
           [''<|start|>one<|start|>two<|message|>content'', ''<|end|>'', ''<|end|>'']))
       = [Some False, Some False, Some True]"
proof (intro conjI allI impI)
  fix snap
  assume "fst (addContent E this content') = Some snap"
  then show "isComplete snap =
        (occurrences ''<|start|>'' (buffer this @ content') =
           occurrences ''<|end|>'' (buffer this @ content') \<and>
         0 < occurrences ''<|start|>'' (buffer this @ content'))"
    by (rule addContent_Some(2))
next
  assume "fst (addContent E this content') = None"
  then show "\<exists>ch. currentChannel (snd (addContent E this content')) = Some ch \<and> \<not> regexp_literal ch"
    by (rule addContent_None)
next
  show "map (map_option isComplete)
        (fst (feed E new_HarmonyStreamParser
           [''<|start|>one<|start|>two<|message|>content'', ''<|end|>'', ''<|end|>'']))
       = [Some False, Some False, Some True]"
    by code_simp
qed

text \<open>
  The theorem at a new instance and one complete message, whose snapshot is complete
  with one start marker and one end marker in the buffer; and at the buffer
  \<open><|channel|>(\<close> with an engine that rejects the pattern built from the name \<open>(\<close>,
  where no snapshot is returned.
\<close>

theorem isComplete_iff_balanced_witness:
  "fst (addContent refusing_engine new_HarmonyStreamParser
          ''<|start|>assistant<|channel|>analysis<|message|>Hi<|end|>'')
     = Some \<lparr>isComplete = True, currentAnalysis = ''Hi'', currentFinal = '''',
              currentCommentary = '''', lastChannelDetected = Some ''analysis'',
              bufferContent = ''<|start|>assistant<|channel|>analysis<|message|>Hi<|end|>''\<rparr>
   \<and> occurrences ''<|start|>''
         (buffer new_HarmonyStreamParser @ ''<|start|>assistant<|channel|>analysis<|message|>Hi<|end|>'')
       = occurrences ''<|end|>''
         (buffer new_HarmonyStreamParser @ ''<|start|>assistant<|channel|>analysis<|message|>Hi<|end|>'')
   \<and> 0 < occurrences ''<|start|>''
         (buffer new_HarmonyStreamParser @ ''<|start|>assistant<|channel|>analysis<|message|>Hi<|end|>'')
   \<and> fst (addContent refusing_engine new_HarmonyStreamParser ''<|channel|>('') = None
   \<and> (\<exists>ch. currentChannel (snd (addContent refusing_engine new_HarmonyStreamParser ''<|channel|>(''))
               = Some ch \<and> \<not> regexp_literal ch)"
proof -
  let ?c = "''<|start|>assistant<|channel|>analysis<|message|>Hi<|end|>''"
  let ?s = "\<lparr>isComplete = True, currentAnalysis = ''Hi'', currentFinal = '''',
              currentCommentary = '''', lastChannelDetected = Some ''analysis'',
              bufferContent = ?c\<rparr>"
  have a: "fst (addContent refusing_engine new_HarmonyStreamParser ?c) = Some ?s"
    by code_simp
  have b: "fst (addContent refusing_engine new_HarmonyStreamParser ''<|channel|>('') = None"
    by code_simp
  from isComplete_iff_balanced [of refusing_engine new_HarmonyStreamParser ?c] a
  have 1: "isComplete ?s =
        (occurrences ''<|start|>'' (buffer new_HarmonyStreamParser @ ?c) =
           occurrences ''<|end|>'' (buffer new_HarmonyStreamParser @ ?c) \<and>
         0 < occurrences ''<|start|>'' (buffer new_HarmonyStreamParser @ ?c))"
    by blast
  from isComplete_iff_balanced [of refusing_engine new_HarmonyStreamParser "''<|channel|>(''"] b
  have 2: "\<exists>ch. currentChannel (snd (addContent refusing_engine new_HarmonyStreamParser ''<|channel|>(''))
               = Some ch \<and> \<not> regexp_literal ch"
    by blast
  from a b 1 2 show ?thesis by simp
qed

subsection \<open>The buffer\<close>

lemma feed_Cons:
  "feed E this (c # cs) =
     (fst (addContent E this c) # fst (feed E (snd (addContent E this c)) cs),
      snd (feed E (snd (addContent E this c)) cs))"
  by (simp split: prod.splits)

lemma feed_length: "length (fst (feed E this cs)) = length cs"
  by (induction cs arbitrary: this) (simp_all add: feed_Cons del: feed.simps(2))

lemma feed_buffer: "buffer (snd (feed E this cs)) = buffer this @ concat cs"
  by (induction cs arbitrary: this) (simp_all add: feed_Cons addContent_buffer del: feed.simps(2))

lemma feed_snapshots:
  "list_all2 (\<lambda>r pre. case r of None \<Rightarrow> True
                         | Some snap \<Rightarrow> bufferContent snap = buffer this @ concat pre)
     (fst (feed E this cs)) (tl (prefixes cs))"
proof (induction cs arbitrary: this)
  case Nil
  then show ?case by simp
next
  case (Cons c cs)
  let ?r = "fst (addContent E this c)" and ?t = "snd (addContent E this c)"
  have b: "buffer ?t = buffer this @ c" by (rule addContent_buffer)
  have h: "case ?r of None \<Rightarrow> True | Some snap \<Rightarrow> bufferContent snap = buffer this @ concat [c]"
    using addContent_Some(1) [of E this c] by (cases ?r) simp_all
  have p: "tl (prefixes (c # cs)) = [c] # map ((#) c) (tl (prefixes cs))"
    by (cases cs) simp_all
  from Cons [of ?t] have
    "list_all2 (\<lambda>r pre. case r of None \<Rightarrow> True
                          | Some snap \<Rightarrow> bufferContent snap = buffer this @ concat (c # pre))
       (fst (feed E ?t cs)) (tl (prefixes cs))"
    by (simp add: b cong: option.case_cong)
  then have "list_all2 (\<lambda>r pre. case r of None \<Rightarrow> True
                          | Some snap \<Rightarrow> bufferContent snap = buffer this @ concat pre)
       (fst (feed E ?t cs)) (map ((#) c) (tl (prefixes cs)))"
    by (simp add: list_all2_map2)
  with h show ?case by (subst p) (simp add: feed_Cons del: feed.simps(2))
qed

text \<open>
  C6. After any sequence of strings given to a new instance by \<open>addContent\<close>,
  \<open>getBuffer\<close> returns the concatenation of the strings in the order they were added,
  and the \<open>bufferContent\<close> of every snapshot that a call returned is the concatenation
  of the strings added up to that call.
\<close>

theorem buffer_accumulates:
  "getBuffer (snd (feed E new_HarmonyStreamParser chunks)) = concat chunks
   \<and> list_all2 (\<lambda>r pre. case r of None \<Rightarrow> True | Some snap \<Rightarrow> bufferContent snap = concat pre)
        (fst (feed E new_HarmonyStreamParser chunks)) (tl (prefixes chunks))"
proof -
  have e: "buffer new_HarmonyStreamParser = []" by (simp add: new_HarmonyStreamParser_def)
  from feed_buffer [of E new_HarmonyStreamParser chunks]
       feed_snapshots [of new_HarmonyStreamParser E chunks]
  show ?thesis by (simp add: getBuffer_def e cong: option.case_cong)
qed

subsection \<open>The snapshot as a function of the buffer\<close>

lemma declares_iff: "(channel_captures s \<noteq> []) = declares s"
  by (induction s) (auto simp: declares_here_def)

lemma declares_here_append: "declares_here s \<Longrightarrow> declares_here (s @ t)"
proof -
  assume a: "declares_here s"
  then have p: "prefix ''<|channel|>'' s" by (simp add: declares_here_def)
  then have l: "length ''<|channel|>'' \<le> length s" by (rule prefix_length_le)
  from a obtain x xs where d: "drop (length ''<|channel|>'') s = x # xs" and x: "isChannelNameChar x"
    by (cases "drop (length ''<|channel|>'') s") (auto simp: declares_here_def split: if_splits)
  from l d have "drop (length ''<|channel|>'') (s @ t) = x # xs @ t" by simp
  with x p show ?thesis by (simp add: declares_here_def)
qed

lemma declares_append: "declares s \<Longrightarrow> declares (s @ t)"
proof (induction s)
  case Nil
  then show ?case by simp
next
  case (Cons c cs)
  then show ?case using declares_here_append [of "c # cs" t] by auto
qed

lemma declares_sublist: "declares s \<Longrightarrow> sublist ''<|channel|>'' s"
  by (induction s) (auto simp: declares_here_def sublist_Cons_right)

lemma captures_nonempty: "x \<in> set (channel_captures s) \<Longrightarrow> x \<noteq> []"
  by (induction s rule: channel_captures.induct) (auto split: if_splits)

lemma detect_tracked:
  assumes "currentChannel this = declared_channel b" and "declares b \<Longrightarrow> declares (buffer this)"
  shows "detectCurrentChannel this = this\<lparr>currentChannel := declared_channel (buffer this)\<rparr>"
proof (cases "channel_captures (buffer this) = []")
  case True
  then have "\<not> declares (buffer this)" using declares_iff [of "buffer this"] by simp
  with assms(2) have "\<not> declares b" by blast
  then have "declared_channel b = None" using declares_iff [of b] by (simp add: declared_channel_def)
  with assms(1) True show ?thesis by (simp add: detectCurrentChannel_def declared_channel_def)
next
  case False
  then have "last (channel_captures (buffer this)) \<in> set (channel_captures (buffer this))" by simp
  then have "last (channel_captures (buffer this)) \<noteq> []" by (rule captures_nonempty)
  with False show ?thesis by (simp add: detectCurrentChannel_def declared_channel_def Let_def)
qed

lemma addContent_tracked:
  assumes "tracked this"
  shows "addContent E this c =
           parseCurrentBuffer E \<lparr>buffer = buffer this @ c, currentChannel = declared_channel (buffer this @ c)\<rparr>"
    and "tracked (snd (addContent E this c))"
proof -
  let ?b = "buffer this @ c"
  let ?t = "this\<lparr>buffer := ?b\<rparr>"
  let ?u = "\<lparr>buffer = ?b, currentChannel = declared_channel ?b\<rparr>"
  have m: "declares (buffer this) \<Longrightarrow> declares (buffer ?t)" by (simp add: declares_append)
  from assms have c: "currentChannel ?t = declared_channel (buffer this)" by (simp add: tracked_def)
  have dt: "detectCurrentChannel ?t = ?u" using detect_tracked [OF c m] by simp
  have du: "detectCurrentChannel ?u = ?u" using detect_tracked [of ?u ?b] by simp
  show "addContent E this c = parseCurrentBuffer E ?u"
  proof (cases "includes_str ?b ''<|start|>'' \<or> includes_str ?b ''<|channel|>'' \<or> includes_str ?b ''<|message|>''")
    case True
    then show ?thesis by (simp add: addContent_def parseCurrentBuffer_def Let_def dt du)
  next
    case False
    then have "\<not> sublist ''<|channel|>'' ?b" by (simp add: includes_str_sublist)
    then have nd: "\<not> declares ?b" using declares_sublist by blast
    then have "\<not> declares (buffer this)" using declares_append by blast
    with nd c have "?t = ?u" using declares_iff [of ?b] declares_iff [of "buffer this"]
      by (simp add: declared_channel_def)
    then show ?thesis by (simp add: addContent_def)
  qed
  then show "tracked (snd (addContent E this c))"
    using du by (simp add: parseCurrentBuffer_def Let_def tracked_def)
qed

lemma feed_last:
  "tracked this \<Longrightarrow> cs \<noteq> [] \<Longrightarrow>
     last (fst (feed E this cs)) =
       fst (parseCurrentBuffer E \<lparr>buffer = buffer this @ concat cs,
                                  currentChannel = declared_channel (buffer this @ concat cs)\<rparr>)"
proof (induction cs arbitrary: this)
  case Nil
  then show ?case by simp
next
  case (Cons c cs)
  let ?t = "snd (addContent E this c)"
  note a = addContent_tracked [OF Cons.prems(1), of E c]
  have b: "buffer ?t = buffer this @ c" by (rule addContent_buffer)
  show ?case
  proof (cases "cs = []")
    case True
    with a(1) show ?thesis by (simp add: feed_Cons del: feed.simps(2))
  next
    case False
    then have "fst (feed E ?t cs) \<noteq> []" using feed_length [of E ?t cs] by auto
    with Cons.IH [OF a(2) False] b show ?thesis by (simp add: feed_Cons del: feed.simps(2))
  qed
qed

lemma tracked_fresh: "tracked new_HarmonyStreamParser" "tracked (reset q)"
  by (simp_all add: tracked_def new_HarmonyStreamParser_def reset_def declared_channel_def)

text \<open>
  C10. Two instances, each new or reset, whose added strings concatenate to the same
  text, return the same from their latest \<open>addContent\<close>: the same snapshot, equal in
  \<open>isComplete\<close>, in the three channel texts, in \<open>lastChannelDetected\<close> and in
  \<open>bufferContent\<close>, or no snapshot in both.
\<close>

theorem snapshot_depends_on_buffer_only:
  assumes "cs1 \<noteq> []" and "cs2 \<noteq> []" and "concat cs1 = concat cs2"
      and "p1 = new_HarmonyStreamParser \<or> p1 = reset q1"
      and "p2 = new_HarmonyStreamParser \<or> p2 = reset q2"
  shows "last (fst (feed E p1 cs1)) = last (fst (feed E p2 cs2))"
proof -
  from assms(4) have t1: "tracked p1" and b1: "buffer p1 = []"
    using tracked_fresh by (auto simp: new_HarmonyStreamParser_def reset_def)
  from assms(5) have t2: "tracked p2" and b2: "buffer p2 = []"
    using tracked_fresh by (auto simp: new_HarmonyStreamParser_def reset_def)
  from feed_last [OF t1 assms(1), of E] feed_last [OF t2 assms(2), of E] b1 b2 assms(3)
  show ?thesis by simp
qed

text \<open>
  The theorem at a new instance that receives a message in two pieces, cut inside the
  channel name, and an instance that was used, is reset, and receives it in one piece.
\<close>

theorem snapshot_depends_on_buffer_only_witness:
  "[''<|start|>assistant<|channel|>ana'', ''lysis<|message|>Hi''] \<noteq> []
   \<and> [''<|start|>assistant<|channel|>analysis<|message|>Hi''] \<noteq> []
   \<and> concat [''<|start|>assistant<|channel|>ana'', ''lysis<|message|>Hi'']
       = concat [''<|start|>assistant<|channel|>analysis<|message|>Hi'']
   \<and> last (fst (feed refusing_engine new_HarmonyStreamParser
               [''<|start|>assistant<|channel|>ana'', ''lysis<|message|>Hi'']))
       = last (fst (feed refusing_engine
               (reset \<lparr>buffer = ''<|channel|>final<|message|>old'', currentChannel = Some ''final''\<rparr>)
               [''<|start|>assistant<|channel|>analysis<|message|>Hi'']))
   \<and> last (fst (feed refusing_engine new_HarmonyStreamParser
               [''<|start|>assistant<|channel|>ana'', ''lysis<|message|>Hi'']))
       = Some \<lparr>isComplete = False, currentAnalysis = ''Hi'', currentFinal = '''',
                currentCommentary = '''', lastChannelDetected = Some ''analysis'',
                bufferContent = ''<|start|>assistant<|channel|>analysis<|message|>Hi''\<rparr>"
proof -
  let ?cs1 = "[''<|start|>assistant<|channel|>ana'', ''lysis<|message|>Hi'']"
  let ?cs2 = "[''<|start|>assistant<|channel|>analysis<|message|>Hi'']"
  let ?q = "\<lparr>buffer = ''<|channel|>final<|message|>old'', currentChannel = Some ''final''\<rparr>"
  have a: "?cs1 \<noteq> []" "?cs2 \<noteq> []" "concat ?cs1 = concat ?cs2" by simp_all
  have v: "last (fst (feed refusing_engine new_HarmonyStreamParser ?cs1))
       = Some \<lparr>isComplete = False, currentAnalysis = ''Hi'', currentFinal = '''',
                currentCommentary = '''', lastChannelDetected = Some ''analysis'',
                bufferContent = ''<|start|>assistant<|channel|>analysis<|message|>Hi''\<rparr>"
    by code_simp
  have f1: "new_HarmonyStreamParser = new_HarmonyStreamParser \<or>
            new_HarmonyStreamParser = reset new_HarmonyStreamParser" by simp
  have f2: "reset ?q = new_HarmonyStreamParser \<or> reset ?q = reset ?q" by simp
  have "last (fst (feed refusing_engine new_HarmonyStreamParser ?cs1))
       = last (fst (feed refusing_engine (reset ?q) ?cs2))"
    by (rule snapshot_depends_on_buffer_only [OF a f1 f2])
  with a v show ?thesis by simp
qed

end
